theory Spec2Isabelle
  imports Main "HOL-Library.Word"
begin

unbundle bit_operations_syntax

section \<open>Guest memory of the emulator: a model of vm.cpp\<close>

text \<open>
  The development follows \<^verbatim>\<open>rpcs3/Emu/Memory/vm.cpp\<close>. Every function of the file that
  is used below is translated into a HOL function of the same name; a function whose C++
  name starts with an underscore carries the prefix \<^verbatim>\<open>us_\<close> instead
  (\<^verbatim>\<open>_reservation_break\<close> is \<^verbatim>\<open>us_reservation_break\<close>), since a HOL name cannot start
  with an underscore. Global variables are the fields of one state record, which every
  operation takes and returns. A C++ exception is the left injection of a sum. An
  operation that locks the reservation mutex takes the calling thread \<open>t\<close>; its result is
  an option, \<open>None\<close> when the call does not return because it waits for the mutex. The
  standard mutexes of the file (of the waiter list, of a thread, of a block) have no
  exception of their own and are not part of the model.
\<close>

subsection \<open>Machine types\<close>

type_synonym u8 = "8 word"
type_synonym u32 = "32 word"
type_synonym u64 = "64 word"

text \<open>
  A thread is identified by its thread-control pointer; the null pointer is \<open>None\<close> of
  \<open>tid option\<close>. A captured exception (\<^verbatim>\<open>std::exception_ptr\<close>) is a number. Guest memory
  is one byte per 32-bit address: the public and the privileged view map the same
  backing object, so the model has one array of bytes for both.
\<close>

type_synonym tid = nat
type_synonym exn = nat
type_synonym memory = "u32 \<Rightarrow> u8"

text \<open>
  The ways in which a call ends without returning. The exceptions of the file are named
  by their messages; \<open>Thrown\<close> is an exception of a callback; \<open>Assertion_failed\<close> is a
  failed \<^verbatim>\<open>assert\<close>. \<open>Out_of_bounds\<close>, \<open>Null_dereference\<close> and \<open>Access_violation\<close> are faults of
  the host rather than exceptions: an access past the end of the page table, an access
  through a null block pointer, and a store to a page that the host protects against it.
\<close>

datatype error =
    Invalid_arguments
  | Invalid_page_flags
  | System_failure
  | Memory_already_mapped
  | Memory_not_mapped
  | Concurrent_access
  | Unexpected_memory_amount
  | Invalid_alignment
  | Assertion_failed
  | Out_of_bounds
  | Null_dereference
  | Deadlock
  | Lost_lock
  | Access_violation
  | Thrown exn

datatype host_prot = PROT_NONE | PROT_READ | PROT_RW

subsection \<open>Declarations the source file takes from its headers\<close>

text \<open>
  Modelled from the spec: the page flag constants are declared in the header of vm.cpp,
  which is not among the sources. The spec names the four flags (allocated, readable,
  writable, no-reservations) as bits of one byte; \<^verbatim>\<open>_page_map\<close> asserts
  \<^verbatim>\<open>flags < page_allocated\<close>, so \<open>page_allocated\<close> is the highest bit. The general theorems
  below do not unfold these constants.
\<close>

definition page_readable :: u8 where
  "page_readable = 1"

definition page_writable :: u8 where
  "page_writable = 2"

definition page_no_reservations :: u8 where
  "page_no_reservations = 16"

definition page_allocated :: u8 where
  "page_allocated = 128"

text \<open>
  Modelled from the spec: \<^verbatim>\<open>cntlz32\<close> (count of leading zero bits of a 32-bit value) is a
  utility outside vm.cpp. The spec describes \<^verbatim>\<open>0x80000000 >> cntlz32(size)\<close> as the largest
  power of two not above \<open>size\<close>. \<open>bit_width n\<close> is the number of binary digits of \<open>n\<close>.
\<close>

fun bit_width :: "nat \<Rightarrow> nat" where
  "bit_width n = (if n = 0 then 0 else Suc (bit_width (n div 2)))"

declare bit_width.simps [simp del]

definition cntlz32 :: "u32 \<Rightarrow> nat" where
  "cntlz32 x = 32 - bit_width (unat x)"

text \<open>
  Modelled from the spec: \<^verbatim>\<open>::align(value, align)\<close> is a utility outside vm.cpp; the spec
  says it rounds \<open>value\<close> up to a multiple of the power of two \<open>align\<close> ("page-aligns size
  up to 4 KiB"). The result has the type of \<open>value\<close>, here 32 bits, so the sum wraps.
\<close>

definition align :: "u32 \<Rightarrow> u32 \<Rightarrow> u32" where
  "align v al = (v + (al - 1)) AND NOT (al - 1)"

subsection \<open>State\<close>

text \<open>
  \<^verbatim>\<open>waiter_t\<close>: the thread that waits (null when the slot is free), the address and
  mask of its window, and its predicate (null once it is claimed). A predicate reads
  guest memory and returns a boolean or throws.
\<close>

record waiter_t =
  w_thread :: "tid option"
  w_addr :: u32
  w_mask :: u32
  w_pred :: "(memory \<Rightarrow> exn + bool) option"

text \<open>
  The globals of vm.cpp. \<open>g_pages\<close> is the page table, indexed by page number; only the
  indices below \<open>0x100000\<close> exist in the source. \<open>g_prot\<close> and \<open>g_priv_prot\<close> are the host
  protection of the public and of the privileged view of each page, \<open>host_ok\<close> tells for
  which pages the host accepts a protection change (\<^verbatim>\<open>mprotect\<close> succeeds).
  \<open>g_reservation_mutex\<close> is the owner field \<^verbatim>\<open>m_owner\<close> of the reservation mutex, \<open>None\<close> for
  \<^verbatim>\<open>INVALID_THREAD\<close> (the mutex is free). \<open>g_waiter_list\<close> holds the slots
  \<open>[0, g_waiter_max)\<close> of the waiter table.
\<close>

record vm_state =
  g_pages :: "nat \<Rightarrow> u8"
  g_mem :: memory
  g_prot :: "nat \<Rightarrow> host_prot"
  g_priv_prot :: "nat \<Rightarrow> host_prot"
  host_ok :: "nat \<Rightarrow> bool"
  g_reservation_mutex :: "tid option"
  g_reservation_owner :: "tid option"
  g_reservation_addr :: u32
  g_reservation_size :: u32
  g_tls_did_break_reservation :: "tid \<Rightarrow> bool"
  g_waiter_list :: "waiter_t list"

text \<open>\<^verbatim>\<open>block_t\<close>: base address, size, used bytes and the map of live allocations.\<close>

record block_t =
  b_addr :: u32
  b_size :: u32
  b_used :: u32
  m_map :: "u32 \<rightharpoonup> u32"

subsection \<open>The reservation mutex\<close>

text \<open>
  \<^verbatim>\<open>reservation_mutex_t::lock\<close>: the loop tries to swap the owner from \<^verbatim>\<open>INVALID_THREAD\<close> to
  the caller; when that fails and the owner is the caller it throws \<^verbatim>\<open>Deadlock\<close>; otherwise
  it waits and tries again. The model has no other thread that could release the mutex, so
  a call made while another thread holds it does not return: the result is \<open>None\<close>.
  \<^verbatim>\<open>do_notify\<close> only decides whether \<^verbatim>\<open>unlock\<close> signals the condition variable, which has no
  state in the model.
\<close>

partial_function (option) lock :: "tid \<Rightarrow> vm_state \<Rightarrow> (error + vm_state) option" where
  "lock t s =
     (if g_reservation_mutex s = None then Some (Inr (s\<lparr>g_reservation_mutex := Some t\<rparr>))
      else if g_reservation_mutex s = Some t then Some (Inl Deadlock)
      else lock t s)"

definition unlock :: "tid \<Rightarrow> vm_state \<Rightarrow> error + vm_state" where
  "unlock t s =
     (if g_reservation_mutex s \<noteq> Some t then Inl Lost_lock
      else Inr (s\<lparr>g_reservation_mutex := None\<rparr>))"

text \<open>
  A scope that holds the mutex (\<^verbatim>\<open>std::lock_guard\<close>, \<^verbatim>\<open>std::unique_lock\<close>): the body runs on
  the state with the mutex taken. The body releases the mutex on each of its returns; an
  exception releases it as well, and carries no state in the model.
\<close>

definition locked :: "tid \<Rightarrow> vm_state \<Rightarrow> (vm_state \<Rightarrow> error + 'a) \<Rightarrow> (error + 'a) option" where
  "locked t s body =
     (case lock t s of
        None \<Rightarrow> None
      | Some (Inl e) \<Rightarrow> Some (Inl e)
      | Some (Inr s0) \<Rightarrow> Some (body s0))"

subsection \<open>Argument check and the waiter list\<close>

text \<open>
  The check that \<^verbatim>\<open>_add_waiter\<close>, \<^verbatim>\<open>notify_at\<close>, \<^verbatim>\<open>reservation_acquire\<close>,
  \<^verbatim>\<open>reservation_update\<close> and \<^verbatim>\<open>reservation_op\<close> start with; \<open>align\<close> is a 64-bit value
  there, and the 32-bit operands are widened for the comparison.
\<close>

definition invalid_args :: "u32 \<Rightarrow> u32 \<Rightarrow> bool" where
  "invalid_args addr sz =
     (let align_v = drop_bit (cntlz32 sz) (0x80000000 :: u64)
      in sz = 0 \<or> addr = 0 \<or> sz > 4096 \<or> (ucast sz :: u64) \<noteq> align_v
         \<or> ((ucast addr :: u64) AND (align_v - 1)) \<noteq> 0)"

text \<open>
  Modelled from the spec: \<^verbatim>\<open>waiter_t::reset\<close> is defined in the header; the spec says that
  registration initialises the record to \<open>{thread, addr, mask = ~(size-1), pred}\<close>.
\<close>

definition reset :: "waiter_t \<Rightarrow> u32 \<Rightarrow> u32 \<Rightarrow> tid \<Rightarrow> (memory \<Rightarrow> exn + bool) \<Rightarrow> waiter_t" where
  "reset w addr sz t p =
     w\<lparr>w_thread := Some t, w_addr := addr, w_mask := NOT (sz - 1), w_pred := Some p\<rparr>"

text \<open>The overlap test of \<^verbatim>\<open>_notify_at\<close> on a waiter's address and mask.\<close>

definition overlap_test :: "u32 \<Rightarrow> u32 \<Rightarrow> u32 \<Rightarrow> u32 \<Rightarrow> bool" where
  "overlap_test waddr wmask addr sz =
     (let mask_v = NOT (sz - 1) in ((waddr XOR addr) AND (mask_v AND wmask)) = 0)"

text \<open>
  \<^verbatim>\<open>waiter_t::try_notify\<close>, on the record and the memory its predicate reads. A predicate
  that throws is replaced by one that throws the captured exception again. Signalling the
  condition variable has no state in the model: it happens exactly when the result is
  true.
\<close>

definition try_notify :: "waiter_t \<Rightarrow> memory \<Rightarrow> bool \<times> waiter_t" where
  "try_notify w m =
     (case w_pred w of
        None \<Rightarrow> (False, w)
      | Some p \<Rightarrow>
          (case p m of
             Inr False \<Rightarrow> (False, w)
           | Inr True \<Rightarrow> (True, w\<lparr>w_pred := None, w_addr := 0, w_mask := NOT 0\<rparr>)
           | Inl e \<Rightarrow> (True, w\<lparr>w_pred := Some (\<lambda>_. Inl e), w_addr := 0, w_mask := NOT 0\<rparr>)))"

definition us_notify_at :: "vm_state \<Rightarrow> u32 \<Rightarrow> u32 \<Rightarrow> vm_state" where
  "us_notify_at s addr sz =
     s\<lparr>g_waiter_list :=
          map (\<lambda>w. if w_thread w \<noteq> None \<and> overlap_test (w_addr w) (w_mask w) addr sz
                    then snd (try_notify w (g_mem s)) else w)
              (g_waiter_list s)\<rparr>"

text \<open>
  \<^verbatim>\<open>notify_all\<close>: the sweep over the slots in use. A slot is inspected when its thread
  is set and its address is not null; the result tells whether every inspected waiter was
  signalled.
\<close>

fun notify_all_loop :: "memory \<Rightarrow> waiter_t list \<Rightarrow> nat \<Rightarrow> nat \<Rightarrow> waiter_t list \<times> nat \<times> nat" where
  "notify_all_loop m [] waiters signaled = ([], waiters, signaled)"
| "notify_all_loop m (w # ws) waiters signaled =
     (if w_thread w \<noteq> None \<and> w_addr w \<noteq> 0 then
        (case try_notify w m of
           (r, w1) \<Rightarrow>
             (case notify_all_loop m ws (waiters + 1) (if r then signaled + 1 else signaled) of
                (ws1, a, b) \<Rightarrow> (w1 # ws1, a, b)))
      else
        (case notify_all_loop m ws waiters signaled of
           (ws1, a, b) \<Rightarrow> (w # ws1, a, b)))"

definition notify_all :: "vm_state \<Rightarrow> bool \<times> vm_state" where
  "notify_all s =
     (case notify_all_loop (g_mem s) (g_waiter_list s) 0 0 of
        (ws, a, b) \<Rightarrow> (a = b, s\<lparr>g_waiter_list := ws\<rparr>))"

subsection \<open>Page table queries\<close>

primrec check_addr_loop :: "(nat \<Rightarrow> u8) \<Rightarrow> nat list \<Rightarrow> bool" where
  "check_addr_loop pg [] = True"
| "check_addr_loop pg (i # ns) =
     (if (pg i AND page_allocated) \<noteq> page_allocated then False else check_addr_loop pg ns)"

text \<open>
  \<^verbatim>\<open>check_addr\<close>: the page numbers run from \<open>addr / 4096\<close> to \<open>(addr + size - 1) / 4096\<close>
  inclusive; both are below \<open>0x100000\<close>, so the counter does not wrap.
\<close>

definition check_addr :: "vm_state \<Rightarrow> u32 \<Rightarrow> u32 \<Rightarrow> error + bool" where
  "check_addr s addr sz =
     (if sz = 0 then Inl Assertion_failed
      else if addr + (sz - 1) < addr then Inr False
      else Inr (check_addr_loop (g_pages s)
                  [unat (addr div 4096) ..< Suc (unat ((addr + sz - 1) div 4096))]))"

subsection \<open>Reservations\<close>

definition us_reservation_set :: "vm_state \<Rightarrow> u32 \<Rightarrow> bool \<Rightarrow> error + vm_state" where
  "us_reservation_set s addr no_access =
     (let p = unat ((addr AND NOT 0xfff) div 4096)
      in if \<not> host_ok s p then Inl System_failure
         else Inr (s\<lparr>g_prot := (g_prot s)(p := (if no_access then PROT_NONE else PROT_READ))\<rparr>))"

definition us_reservation_break :: "vm_state \<Rightarrow> u32 \<Rightarrow> error + bool \<times> vm_state" where
  "us_reservation_break s addr =
     (if drop_bit 12 (g_reservation_addr s) = drop_bit 12 addr then
        (let p = unat ((addr AND NOT 0xfff) div 4096)
         in if \<not> host_ok s p then Inl System_failure
            else Inr (True, s\<lparr>g_prot := (g_prot s)(p := PROT_RW),
                               g_reservation_addr := 0,
                               g_reservation_size := 0,
                               g_reservation_owner := None\<rparr>))
      else Inr (False, s))"

definition reservation_break :: "tid \<Rightarrow> u32 \<Rightarrow> vm_state \<Rightarrow> (error + vm_state) option" where
  "reservation_break t addr s =
     locked t s (\<lambda>s0.
       (let raddr = g_reservation_addr s0; rsize = g_reservation_size s0
        in case us_reservation_break s0 addr of
             Inl e \<Rightarrow> Inl e
           | Inr (b, s1) \<Rightarrow>
               (case unlock t (s1\<lparr>g_tls_did_break_reservation :=
                                    (g_tls_did_break_reservation s1)(t := b)\<rparr>) of
                  Inl e \<Rightarrow> Inl e
                | Inr s2 \<Rightarrow> Inr (if b then us_notify_at s2 raddr rsize else s2))))"

text \<open>
  \<^verbatim>\<open>reservation_acquire\<close> returns the bytes it copies to \<open>data\<close> together with the new
  state.
\<close>

definition reservation_acquire ::
  "tid \<Rightarrow> u32 \<Rightarrow> u32 \<Rightarrow> vm_state \<Rightarrow> (error + u8 list \<times> vm_state) option" where
  "reservation_acquire t addr sz s =
     locked t s (\<lambda>s0.
       if invalid_args addr sz then Inl Invalid_arguments
       else
         (let flags = g_pages s0 (unat (drop_bit 12 addr))
          in if (flags AND page_writable) = 0 \<or> (flags AND page_allocated) = 0
                \<or> (flags AND page_no_reservations) \<noteq> 0
             then Inl Invalid_page_flags
             else
               (case (if g_reservation_owner s0 \<noteq> None
                      then us_reservation_break s0 (g_reservation_addr s0)
                      else Inr (False, s0)) of
                  Inl e \<Rightarrow> Inl e
                | Inr (b, s1) \<Rightarrow>
                    (case us_reservation_set
                            (s1\<lparr>g_tls_did_break_reservation :=
                                  (g_tls_did_break_reservation s1)(t := b)\<rparr>) addr False of
                       Inl e \<Rightarrow> Inl e
                     | Inr s2 \<Rightarrow>
                         (let s3 = s2\<lparr>g_reservation_addr := addr,
                                       g_reservation_size := sz,
                                       g_reservation_owner := Some t\<rparr>
                          in case unlock t s3 of
                               Inl e \<Rightarrow> Inl e
                             | Inr s4 \<Rightarrow>
                                 Inr (map (\<lambda>i. g_mem s4 (addr + of_nat i)) [0 ..< unat sz], s4))))))"

text \<open>
  \<^verbatim>\<open>memcpy(priv_ptr(addr), data, size)\<close>: byte \<open>i\<close> of the buffer goes to address
  \<open>addr + i\<close>; the buffer is a function from offsets to bytes.
\<close>

definition memcpy_priv :: "memory \<Rightarrow> u32 \<Rightarrow> (nat \<Rightarrow> u8) \<Rightarrow> u32 \<Rightarrow> memory" where
  "memcpy_priv m addr data sz =
     (\<lambda>a. if unat addr \<le> unat a \<and> unat a < unat addr + unat sz
           then data (unat a - unat addr) else m a)"

text \<open>
  \<^verbatim>\<open>reservation_update\<close>. The store goes through the privileged view, whose pages are
  read-write only while they are mapped: on any other page the store faults. The bytes
  lie in one page, since the arguments have passed the check (\<open>addr\<close> is aligned to
  \<open>size\<close>, at most 4096).
\<close>

definition reservation_update ::
  "tid \<Rightarrow> u32 \<Rightarrow> (nat \<Rightarrow> u8) \<Rightarrow> u32 \<Rightarrow> vm_state \<Rightarrow> (error + bool \<times> vm_state) option" where
  "reservation_update t addr data sz s =
     locked t s (\<lambda>s0.
       if invalid_args addr sz then Inl Invalid_arguments
       else if g_reservation_owner s0 \<noteq> Some t \<or> g_reservation_addr s0 \<noteq> addr
               \<or> g_reservation_size s0 \<noteq> sz
       then (case unlock t s0 of Inl e \<Rightarrow> Inl e | Inr s1 \<Rightarrow> Inr (False, s1))
       else
         (case us_reservation_set s0 addr True of
            Inl e \<Rightarrow> Inl e
          | Inr s1 \<Rightarrow>
              if g_priv_prot s1 (unat (addr div 4096)) \<noteq> PROT_RW then Inl Access_violation
              else
                (case us_reservation_break (s1\<lparr>g_mem := memcpy_priv (g_mem s1) addr data sz\<rparr>) addr of
                   Inl e \<Rightarrow> Inl e
                 | Inr (b, s2) \<Rightarrow>
                     (case unlock t s2 of
                        Inl e \<Rightarrow> Inl e
                      | Inr s3 \<Rightarrow> Inr (True, us_notify_at s3 addr sz)))))"

text \<open>
  \<^verbatim>\<open>reservation_query\<close>. The callback may write guest memory and returns a boolean or
  throws. Modelled from the spec: the call \<^verbatim>\<open>check_addr(addr)\<close> relies on the default
  value of the second parameter, which the header declares; the spec speaks of the page
  that contains \<open>addr\<close>, which is \<open>size = 1\<close>.
\<close>

definition reservation_query ::
  "tid \<Rightarrow> u32 \<Rightarrow> u32 \<Rightarrow> bool \<Rightarrow> (memory \<Rightarrow> exn + bool \<times> memory) \<Rightarrow> vm_state
     \<Rightarrow> (error + bool \<times> vm_state) option" where
  "reservation_query t addr sz is_writing callback s =
     locked t s (\<lambda>s0.
       case check_addr s0 addr 1 of
         Inl e \<Rightarrow> Inl e
       | Inr False \<Rightarrow> (case unlock t s0 of Inl e \<Rightarrow> Inl e | Inr s1 \<Rightarrow> Inr (False, s1))
       | Inr True \<Rightarrow>
           if drop_bit 12 (g_reservation_addr s0) = drop_bit 12 addr \<and> is_writing then
             (case callback (g_mem s0) of
                Inl e \<Rightarrow> Inl (Thrown e)
              | Inr (result, m1) \<Rightarrow>
                  (let s1 = s0\<lparr>g_mem := m1\<rparr>
                   in if result \<and> sz \<noteq> 0 \<and> addr + sz - 1 \<ge> g_reservation_addr s1
                         \<and> g_reservation_addr s1 + g_reservation_size s1 - 1 \<ge> addr
                      then
                        (let raddr = g_reservation_addr s1; rsize = g_reservation_size s1
                         in case us_reservation_break s1 addr of
                              Inl e \<Rightarrow> Inl e
                            | Inr (b, s2) \<Rightarrow>
                                (case unlock t (s2\<lparr>g_tls_did_break_reservation :=
                                                     (g_tls_did_break_reservation s2)(t := b)\<rparr>) of
                                   Inl e \<Rightarrow> Inl e
                                 | Inr s3 \<Rightarrow>
                                     Inr (result, if b then us_notify_at s3 raddr rsize else s3)))
                      else (case unlock t s1 of Inl e \<Rightarrow> Inl e | Inr s2 \<Rightarrow> Inr (result, s2))))
           else (case unlock t s0 of Inl e \<Rightarrow> Inl e | Inr s1 \<Rightarrow> Inr (True, s1)))"

text \<open>
  \<^verbatim>\<open>reservation_op\<close>. The effect \<open>proc\<close> reads and writes guest memory through the
  privileged view and may throw.
\<close>

definition reservation_op ::
  "tid \<Rightarrow> u32 \<Rightarrow> u32 \<Rightarrow> (memory \<Rightarrow> exn + memory) \<Rightarrow> vm_state \<Rightarrow> (error + vm_state) option" where
  "reservation_op t addr sz proc s =
     locked t s (\<lambda>s00.
       if invalid_args addr sz then Inl Invalid_arguments
       else
         (let s0 = s00\<lparr>g_tls_did_break_reservation := (g_tls_did_break_reservation s00)(t := False)\<rparr>
          in case (if g_reservation_owner s0 \<noteq> Some t \<or> g_reservation_addr s0 \<noteq> addr
                      \<or> g_reservation_size s0 \<noteq> sz
                   then
                     (case (if g_reservation_owner s0 \<noteq> None
                            then us_reservation_break s0 (g_reservation_addr s0)
                            else Inr (False, s0)) of
                        Inl e \<Rightarrow> Inl e
                      | Inr (b, s1) \<Rightarrow>
                          Inr (s1\<lparr>g_tls_did_break_reservation :=
                                     (g_tls_did_break_reservation s1)(t := True)\<rparr>))
                   else Inr s0) of
               Inl e \<Rightarrow> Inl e
             | Inr s2 \<Rightarrow>
                 (case us_reservation_set s2 addr True of
                    Inl e \<Rightarrow> Inl e
                  | Inr s3 \<Rightarrow>
                      (let s4 = s3\<lparr>g_reservation_addr := addr,
                                    g_reservation_size := sz,
                                    g_reservation_owner := Some t\<rparr>
                       in case proc (g_mem s4) of
                            Inl e \<Rightarrow> Inl (Thrown e)
                          | Inr m1 \<Rightarrow>
                              (case us_reservation_break (s4\<lparr>g_mem := m1\<rparr>) addr of
                                 Inl e \<Rightarrow> Inl e
                               | Inr (b, s5) \<Rightarrow>
                                   (case unlock t s5 of
                                      Inl e \<Rightarrow> Inl e
                                    | Inr s6 \<Rightarrow> Inr (us_notify_at s6 addr sz)))))))"

subsection \<open>Mapping, protecting and unmapping pages\<close>

text \<open>
  The loops of \<^verbatim>\<open>_page_map\<close>, \<^verbatim>\<open>page_protect\<close> and \<^verbatim>\<open>_page_unmap\<close> run over the page
  numbers from \<open>addr / 4096\<close> up to, not including, \<open>addr / 4096 + size / 4096\<close>. The sum is
  below \<open>2^21\<close> and does not wrap, but it can pass the end of \<open>g_pages\<close>, which has
  \<open>0x100000\<close> entries: reading the array there is undefined in C++, and the model stops
  with \<open>Out_of_bounds\<close>.
\<close>

definition page_range :: "u32 \<Rightarrow> u32 \<Rightarrow> nat list" where
  "page_range addr sz = [unat (addr div 4096) ..< unat (addr div 4096) + unat (sz div 4096)]"

definition protection :: "u8 \<Rightarrow> host_prot" where
  "protection flags =
     (if (flags AND page_writable) \<noteq> 0 then PROT_RW
      else if (flags AND page_readable) \<noteq> 0 then PROT_READ else PROT_NONE)"

definition set_prot :: "(nat \<Rightarrow> host_prot) \<Rightarrow> nat list \<Rightarrow> host_prot \<Rightarrow> nat \<Rightarrow> host_prot" where
  "set_prot f ns v = (\<lambda>i. if i \<in> set ns then v else f i)"

primrec page_map_check :: "(nat \<Rightarrow> u8) \<Rightarrow> nat list \<Rightarrow> error + unit" where
  "page_map_check pg [] = Inr ()"
| "page_map_check pg (i # ns) =
     (if i \<ge> 0x100000 then Inl Out_of_bounds
      else if pg i \<noteq> 0 then Inl Memory_already_mapped
      else page_map_check pg ns)"

primrec page_map_store :: "u8 \<Rightarrow> nat list \<Rightarrow> (nat \<Rightarrow> u8) \<Rightarrow> error + (nat \<Rightarrow> u8)" where
  "page_map_store flags [] pg = Inr pg"
| "page_map_store flags (i # ns) pg =
     (if i \<ge> 0x100000 then Inl Out_of_bounds
      else if pg i \<noteq> 0 then Inl Concurrent_access
      else page_map_store flags ns (pg(i := flags OR page_allocated)))"

definition us_page_map :: "vm_state \<Rightarrow> u32 \<Rightarrow> u32 \<Rightarrow> u8 \<Rightarrow> error + vm_state" where
  "us_page_map s addr sz flags =
     (if \<not> (sz \<noteq> 0 \<and> (sz OR addr) mod 4096 = 0 \<and> flags < page_allocated)
      then Inl Assertion_failed
      else
        (case page_map_check (g_pages s) (page_range addr sz) of
           Inl e \<Rightarrow> Inl e
         | Inr _ \<Rightarrow>
             if \<not> list_all (host_ok s) (page_range addr sz) then Inl System_failure
             else
               (case page_map_store flags (page_range addr sz) (g_pages s) of
                  Inl e \<Rightarrow> Inl e
                | Inr pg \<Rightarrow>
                    Inr (s\<lparr>g_pages := pg,
                           g_priv_prot := set_prot (g_priv_prot s) (page_range addr sz) PROT_RW,
                           g_prot := set_prot (g_prot s) (page_range addr sz) (protection flags),
                           g_mem := (\<lambda>a. if unat addr \<le> unat a \<and> unat a < unat addr + unat sz
                                          then 0 else g_mem s a)\<rparr>))))"

primrec page_protect_test :: "(nat \<Rightarrow> u8) \<Rightarrow> u8 \<Rightarrow> nat list \<Rightarrow> error + bool" where
  "page_protect_test pg flags_test [] = Inr True"
| "page_protect_test pg flags_test (i # ns) =
     (if i \<ge> 0x100000 then Inl Out_of_bounds
      else if (pg i AND flags_test) \<noteq> (flags_test OR page_allocated) then Inr False
      else page_protect_test pg flags_test ns)"

text \<open>
  The three atomic updates of one page byte in \<^verbatim>\<open>page_protect\<close>: or, and-not, xor.
\<close>

definition protect_byte :: "u8 \<Rightarrow> u8 \<Rightarrow> u8 \<Rightarrow> u8" where
  "protect_byte flags_set flags_clear old =
     (let flags_inv = flags_set AND flags_clear;
          v1 = old OR (flags_set AND NOT flags_inv);
          v2 = v1 AND NOT (flags_clear AND NOT flags_inv)
      in v2 XOR flags_inv)"

text \<open>
  The second loop of \<^verbatim>\<open>page_protect\<close>. Modelled from the spec: \<^verbatim>\<open>_or\<close> of the atomic
  wrapper is declared outside vm.cpp; it returns the value before the update, so \<open>f1\<close> are
  the old access bits and \<open>f2\<close> the new ones, and the host protection is changed when they
  differ ("whenever the effective public-view protection changes").
\<close>

fun page_protect_apply :: "u8 \<Rightarrow> u8 \<Rightarrow> nat list \<Rightarrow> vm_state \<Rightarrow> error + vm_state" where
  "page_protect_apply flags_set flags_clear [] s = Inr s"
| "page_protect_apply flags_set flags_clear (i # ns) s =
     (case us_reservation_break s (of_nat i * 4096) of
        Inl e \<Rightarrow> Inl e
      | Inr (b, s1) \<Rightarrow>
          if i \<ge> 0x100000 then Inl Out_of_bounds
          else
            (let old = g_pages s1 i;
                 f1 = old AND (page_writable OR page_readable);
                 new = protect_byte flags_set flags_clear old;
                 f2 = new AND (page_writable OR page_readable);
                 s2 = s1\<lparr>g_pages := (g_pages s1)(i := new)\<rparr>
             in if f1 \<noteq> f2 then
                  (if \<not> host_ok s2 i then Inl System_failure
                   else page_protect_apply flags_set flags_clear ns
                          (s2\<lparr>g_prot := (g_prot s2)(i := protection f2)\<rparr>))
                else page_protect_apply flags_set flags_clear ns s2))"

definition page_protect ::
  "tid \<Rightarrow> vm_state \<Rightarrow> u32 \<Rightarrow> u32 \<Rightarrow> u8 \<Rightarrow> u8 \<Rightarrow> u8 \<Rightarrow> (error + bool \<times> vm_state) option" where
  "page_protect t s addr sz flags_test flags_set flags_clear =
     locked t s (\<lambda>s0.
       (let flags_inv = flags_set AND flags_clear
        in if \<not> (sz \<noteq> 0 \<and> (sz OR addr) mod 4096 = 0) then Inl Assertion_failed
           else
             (case page_protect_test (g_pages s0) (flags_test OR page_allocated) (page_range addr sz) of
                Inl e \<Rightarrow> Inl e
              | Inr False \<Rightarrow> (case unlock t s0 of Inl e \<Rightarrow> Inl e | Inr s1 \<Rightarrow> Inr (False, s1))
              | Inr True \<Rightarrow>
                  if flags_inv = 0 \<and> flags_set = 0 \<and> flags_clear = 0
                  then (case unlock t s0 of Inl e \<Rightarrow> Inl e | Inr s1 \<Rightarrow> Inr (True, s1))
                  else
                    (case page_protect_apply flags_set flags_clear (page_range addr sz) s0 of
                       Inl e \<Rightarrow> Inl e
                     | Inr s1 \<Rightarrow>
                         (case unlock t s1 of Inl e \<Rightarrow> Inl e | Inr s2 \<Rightarrow> Inr (True, s2))))))"

primrec page_unmap_check :: "(nat \<Rightarrow> u8) \<Rightarrow> nat list \<Rightarrow> error + unit" where
  "page_unmap_check pg [] = Inr ()"
| "page_unmap_check pg (i # ns) =
     (if i \<ge> 0x100000 then Inl Out_of_bounds
      else if (pg i AND page_allocated) = 0 then Inl Memory_not_mapped
      else page_unmap_check pg ns)"

fun page_unmap_clear :: "nat list \<Rightarrow> vm_state \<Rightarrow> error + vm_state" where
  "page_unmap_clear [] s = Inr s"
| "page_unmap_clear (i # ns) s =
     (case us_reservation_break s (of_nat i * 4096) of
        Inl e \<Rightarrow> Inl e
      | Inr (b, s1) \<Rightarrow>
          if i \<ge> 0x100000 then Inl Out_of_bounds
          else if (g_pages s1 i AND page_allocated) = 0 then Inl Concurrent_access
          else page_unmap_clear ns (s1\<lparr>g_pages := (g_pages s1)(i := 0)\<rparr>))"

definition us_page_unmap :: "vm_state \<Rightarrow> u32 \<Rightarrow> u32 \<Rightarrow> error + vm_state" where
  "us_page_unmap s addr sz =
     (if \<not> (sz \<noteq> 0 \<and> (sz OR addr) mod 4096 = 0) then Inl Assertion_failed
      else
        (case page_unmap_check (g_pages s) (page_range addr sz) of
           Inl e \<Rightarrow> Inl e
         | Inr _ \<Rightarrow>
             (case page_unmap_clear (page_range addr sz) s of
                Inl e \<Rightarrow> Inl e
              | Inr s1 \<Rightarrow>
                  if \<not> list_all (host_ok s1) (page_range addr sz) then Inl System_failure
                  else Inr (s1\<lparr>g_prot := set_prot (g_prot s1) (page_range addr sz) PROT_NONE,
                               g_priv_prot := set_prot (g_priv_prot s1) (page_range addr sz) PROT_NONE\<rparr>))))"

subsection \<open>Blocks\<close>

primrec try_alloc_check :: "(nat \<Rightarrow> u8) \<Rightarrow> nat list \<Rightarrow> bool" where
  "try_alloc_check pg [] = True"
| "try_alloc_check pg (i # ns) = (if pg i \<noteq> 0 then False else try_alloc_check pg ns)"

text \<open>
  \<^verbatim>\<open>block_t::try_alloc\<close>. The first loop runs from \<open>addr / 4096\<close> to
  \<open>(addr + size - 1) / 4096\<close> inclusive, in 32-bit arithmetic.
\<close>

definition try_alloc :: "block_t \<Rightarrow> vm_state \<Rightarrow> u32 \<Rightarrow> u32 \<Rightarrow> error + bool \<times> block_t \<times> vm_state" where
  "try_alloc b s addr sz =
     (if \<not> try_alloc_check (g_pages s)
              [unat (addr div 4096) ..< Suc (unat ((addr + sz - 1) div 4096))]
      then Inr (False, b, s)
      else if b_used b > b_size b then Inl Unexpected_memory_amount
      else if b_used b + sz > b_size b then Inr (False, b, s)
      else
        (case us_page_map s addr sz (page_readable OR page_writable) of
           Inl e \<Rightarrow> Inl e
         | Inr s1 \<Rightarrow>
             Inr (True, b\<lparr>b_used := b_used b + sz, m_map := (m_map b)(addr \<mapsto> sz)\<rparr>, s1)))"

text \<open>
  The search loop of \<^verbatim>\<open>block_t::alloc\<close>. The candidate address is a 32-bit value and
  \<^verbatim>\<open>addr += align\<close> wraps, so the loop need not end: the result is an option, \<open>None\<close> when
  the loop runs forever.
\<close>

partial_function (option) alloc_loop ::
  "block_t \<Rightarrow> vm_state \<Rightarrow> u32 \<Rightarrow> u32 \<Rightarrow> u32 \<Rightarrow> (error + u32 \<times> block_t \<times> vm_state) option" where
  "alloc_loop b s sz align_v addr =
     (if addr < b_addr b + b_size b - 1 then
        (case try_alloc b s addr sz of
           Inl e \<Rightarrow> Some (Inl e)
         | Inr (ok, b1, s1) \<Rightarrow>
             if ok then Some (Inr (addr, b1, s1))
             else if b_used b1 + sz > b_size b1 then Some (Inr (0, b1, s1))
             else alloc_loop b1 s1 sz align_v (addr + align_v))
      else Some (Inr (0, b, s)))"

definition alloc :: "block_t \<Rightarrow> vm_state \<Rightarrow> u32 \<Rightarrow> u32 \<Rightarrow> (error + u32 \<times> block_t \<times> vm_state) option" where
  "alloc b s sz0 align_v =
     (let sz = align sz0 4096
      in if align_v < 4096 \<or> align_v \<noteq> drop_bit (cntlz32 align_v) (0x80000000 :: u32)
         then Some (Inl Invalid_alignment)
         else if sz = 0 \<or> sz > b_size b then Some (Inr (0, b, s))
         else alloc_loop b s sz align_v (align (b_addr b) align_v))"

definition falloc :: "block_t \<Rightarrow> vm_state \<Rightarrow> u32 \<Rightarrow> u32 \<Rightarrow> error + u32 \<times> block_t \<times> vm_state" where
  "falloc b s addr sz0 =
     (let sz = align sz0 4096
      in if sz = 0 \<or> sz > b_size b \<or> addr < b_addr b
            \<or> addr + sz - 1 \<ge> b_addr b + b_size b - 1
         then Inr (0, b, s)
         else
           (case try_alloc b s addr sz of
              Inl e \<Rightarrow> Inl e
            | Inr (ok, b1, s1) \<Rightarrow> if \<not> ok then Inr (0, b1, s1) else Inr (addr, b1, s1)))"

text \<open>
  \<^verbatim>\<open>block_t::dealloc\<close> holds the reservation mutex while it unmaps the pages.
\<close>

definition dealloc ::
  "tid \<Rightarrow> block_t \<Rightarrow> vm_state \<Rightarrow> u32 \<Rightarrow> (error + bool \<times> block_t \<times> vm_state) option" where
  "dealloc t b s addr =
     (case m_map b addr of
        Some sz \<Rightarrow>
          locked t s (\<lambda>s0.
            case us_page_unmap s0 addr sz of
              Inl e \<Rightarrow> Inl e
            | Inr s1 \<Rightarrow>
                (case unlock t s1 of
                   Inl e \<Rightarrow> Inl e
                 | Inr s2 \<Rightarrow>
                     Inr (True, b\<lparr>m_map := (m_map b)(addr := None), b_used := b_used b - sz\<rparr>, s2)))
      | None \<Rightarrow> Some (Inr (False, b, s)))"

subsection \<open>The location registry\<close>

text \<open>
  \<open>g_locations\<close> is a vector of shared pointers to blocks; a null pointer is \<open>None\<close>. A
  location is a slot number or the sentinel \<open>any\<close>. Reading a field through a null
  pointer is undefined in C++; the model stops with \<open>Null_dereference\<close>.
\<close>

datatype memory_location_t = Location nat | any

definition new_block :: "u32 \<Rightarrow> u32 \<Rightarrow> block_t" where
  "new_block addr sz = \<lparr>b_addr = addr, b_size = sz, b_used = 0, m_map = Map.empty\<rparr>"

primrec get_search :: "block_t option list \<Rightarrow> u32 \<Rightarrow> error + block_t option" where
  "get_search [] addr = Inr None"
| "get_search (x # xs) addr =
     (case x of
        None \<Rightarrow> Inl Null_dereference
      | Some block \<Rightarrow>
          if addr \<ge> b_addr block \<and> addr \<le> b_addr block + b_size block - 1 then Inr (Some block)
          else get_search xs addr)"

text \<open>
  \<^verbatim>\<open>get\<close> holds the reservation mutex while it reads the vector; it changes nothing else,
  and its result is the handle alone.
\<close>

definition get ::
  "tid \<Rightarrow> vm_state \<Rightarrow> block_t option list \<Rightarrow> memory_location_t \<Rightarrow> u32
     \<Rightarrow> (error + block_t option) option" where
  "get t s g_locations location addr =
     locked t s (\<lambda>s0.
       case (case location of
               Location n \<Rightarrow> if n < length g_locations then Inr (g_locations ! n) else Inr None
             | any \<Rightarrow> get_search g_locations addr) of
         Inl e \<Rightarrow> Inl e
       | Inr r \<Rightarrow> (case unlock t s0 of Inl e \<Rightarrow> Inl e | Inr s1 \<Rightarrow> Inr r))"

definition ps3_init :: "block_t option list" where
  "ps3_init =
     [Some (new_block 0x00010000 0x1FFF0000),
      Some (new_block 0x20000000 0x10000000),
      Some (new_block 0xC0000000 0x10000000),
      Some (new_block 0xD0000000 0x10000000),
      Some (new_block 0xE0000000 0x20000000)]"

definition psv_init :: "block_t option list" where
  "psv_init =
     [Some (new_block 0x81000000 0x10000000),
      Some (new_block 0x91000000 0x2F000000),
      None,
      None]"

definition psp_init :: "block_t option list" where
  "psp_init =
     [Some (new_block 0x08000000 0x02000000),
      Some (new_block 0x08800000 0x01800000),
      Some (new_block 0x04000000 0x00200000),
      None,
      Some (new_block 0x00010000 0x00004000),
      Some (new_block 0x88000000 0x00800000)]"

text \<open>
  The state at start: the page table is zero-initialised, both views are reserved with no
  access, the mutex is free, no reservation is held and no thread waits. The host accepts
  every protection change.
\<close>

definition vm_start :: vm_state where
  "vm_start =
     \<lparr>g_pages = (\<lambda>_. 0), g_mem = (\<lambda>_. 0), g_prot = (\<lambda>_. PROT_NONE),
      g_priv_prot = (\<lambda>_. PROT_NONE), host_ok = (\<lambda>_. True), g_reservation_mutex = None,
      g_reservation_owner = None, g_reservation_addr = 0, g_reservation_size = 0,
      g_tls_did_break_reservation = (\<lambda>_. False), g_waiter_list = []\<rparr>"

subsection \<open>States and waiters used in the examples\<close>

text \<open>
  One page mapped read-write at \<open>0x20000\<close>; the same with a reservation of four bytes at
  \<open>0x20000\<close> held by thread \<open>1\<close>.
\<close>

definition vm_page_mapped :: vm_state where
  "vm_page_mapped =
     (case us_page_map vm_start 0x20000 0x1000 (page_readable OR page_writable) of
        Inr s \<Rightarrow> s | Inl e \<Rightarrow> vm_start)"

definition vm_reserved :: vm_state where
  "vm_reserved =
     (case reservation_acquire 1 0x20000 4 vm_page_mapped of
        Some (Inr r) \<Rightarrow> snd r | _ \<Rightarrow> vm_page_mapped)"

text \<open>
  A predicate that compares one byte of guest memory, one that throws, and an empty slot
  of the waiter table.
\<close>

definition pred_byte_is :: "u32 \<Rightarrow> u8 \<Rightarrow> memory \<Rightarrow> exn + bool" where
  "pred_byte_is a v m = Inr (m a = v)"

definition pred_throw :: "exn \<Rightarrow> memory \<Rightarrow> exn + bool" where
  "pred_throw e m = Inl e"

definition waiter_nil :: waiter_t where
  "waiter_nil = \<lparr>w_thread = None, w_addr = 0, w_mask = 0, w_pred = None\<rparr>"

section \<open>Properties\<close>

subsection \<open>Arithmetic of windows aligned to their size\<close>

lemma and_not_mask_eq_0: "((x :: u32) AND NOT (mask K)) = 0 \<longleftrightarrow> drop_bit K x = 0"
proof -
  have "(x AND NOT (mask K)) = push_bit K (drop_bit K x)"
    by (rule bit_word_eqI) (auto simp: bit_simps)
  moreover have "push_bit K (drop_bit K x) = 0 \<longleftrightarrow> drop_bit K x = 0"
    by (metis add_cancel_left_left bits_ident take_bit_eq_self_iff_drop_bit_eq_0)
  ultimately show ?thesis by simp
qed

lemma xor_eq_0: "((x :: u32) XOR y) = 0 \<longleftrightarrow> x = y"
  by (metis bit.xor_left_self xor.right_neutral)

lemma drop_bit_eq_unat_div:
  "drop_bit K (a1::u32) = drop_bit K a2 \<longleftrightarrow> unat a1 div 2^K = unat a2 div 2^K"
  by (simp only: word_unat_eq_iff unat_drop_bit_eq) (simp add: drop_bit_eq_div)

lemma not_mask_and: "NOT (mask k2) AND NOT (mask k1) = (NOT (mask (max k1 k2)) :: u32)"
  by (rule bit_word_eqI) (auto simp: bit_simps)

lemma aligned_dvd: "((a::u32) AND (2^k - 1)) = 0 \<longleftrightarrow> 2^k dvd unat a"
  by (simp add: and_mask_dvd_nat mask_eq_exp_minus_1)

lemma div_eq_window:
  assumes "(d::nat) > 0" "d dvd a2"
  shows "a1 div d = a2 div d \<longleftrightarrow> a2 \<le> a1 \<and> a1 < a2 + d"
proof -
  obtain m where m: "a2 = d * m" using assms(2) by (auto elim: dvdE)
  have q: "a2 div d = m" using assms(1) by (simp add: m)
  show ?thesis
  proof
    assume e: "a1 div d = a2 div d"
    have "a1 div d * d \<le> a1" by (rule div_times_less_eq_dividend)
    moreover have "a1 mod d < d" using assms(1) by simp
    moreover have "a1 = a1 div d * d + a1 mod d" by simp
    ultimately have "a1 div d * d \<le> a1 \<and> a1 < a1 div d * d + d" by linarith
    then show "a2 \<le> a1 \<and> a1 < a2 + d" using e q m assms(1) by (simp add: mult.commute)
  next
    assume "a2 \<le> a1 \<and> a1 < a2 + d"
    then have "d * m \<le> a1" "a1 < d * Suc m" by (simp_all add: m)
    then have "a1 div d = m" by (rule div_nat_eqI)
    with q show "a1 div d = a2 div d" by simp
  qed
qed

lemma multiples_lt:
  assumes "(d::nat) dvd a" "d dvd b" "d > 0"
  shows "b < a + d \<longleftrightarrow> b \<le> a"
proof -
  obtain m where m: "a = d * m" using assms(1) by (auto elim: dvdE)
  obtain n where n: "b = d * n" using assms(2) by (auto elim: dvdE)
  have "a + d = d * Suc m" by (simp add: m)
  then have "b < a + d \<longleftrightarrow> d * n < d * Suc m" by (simp only: n)
  also have "\<dots> \<longleftrightarrow> n < Suc m" using assms(3) by (simp only: mult_less_cancel1) simp
  also have "\<dots> \<longleftrightarrow> n \<le> m" by auto
  also have "\<dots> \<longleftrightarrow> d * n \<le> d * m" using assms(3) by (simp only: mult_le_cancel1) simp
  finally show ?thesis by (simp only: m n)
qed

lemma window_nat:
  assumes "k1 \<le> k2" "(2::nat)^k1 dvd a1" "2^k2 dvd a2"
  shows "a1 div 2^k2 = a2 div 2^k2 \<longleftrightarrow> a1 < a2 + 2^k2 \<and> a2 < a1 + 2^k1"
proof -
  have "(2::nat)^k1 dvd 2^k2" using assms(1) by (simp add: le_imp_power_dvd)
  then have "2^k1 dvd a2" using assms(3) by (rule dvd_trans)
  with assms(2) have "a2 < a1 + 2^k1 \<longleftrightarrow> a2 \<le> a1" by (intro multiples_lt) simp_all
  moreover have "a1 div 2^k2 = a2 div 2^k2 \<longleftrightarrow> a2 \<le> a1 \<and> a1 < a2 + 2^k2"
    using assms(3) by (intro div_eq_window) simp_all
  ultimately show ?thesis by auto
qed

lemma window_nat_sym:
  assumes "(2::nat)^k1 dvd a1" "2^k2 dvd a2"
  shows "a1 div 2^(max k1 k2) = a2 div 2^(max k1 k2) \<longleftrightarrow> a1 < a2 + 2^k2 \<and> a2 < a1 + 2^k1"
proof (cases "k1 \<le> k2")
  case True
  then show ?thesis using window_nat[OF True assms] by (simp add: max_def)
next
  case False
  then have le: "k2 \<le> k1" by simp
  show ?thesis using window_nat[OF le assms(2) assms(1)] le by (auto simp: max_def)
qed

lemma unat_pow2_u32: "k \<le> 12 \<Longrightarrow> unat ((2::u32) ^ k) = 2 ^ k"
proof -
  assume "k \<le> 12"
  then have "(2::nat) ^ k \<le> 2 ^ 12" by (intro power_increasing) simp_all
  then have lt: "(2::nat) ^ k < 2 ^ 32" by simp
  have "unat (of_nat (2 ^ k) :: u32) = 2 ^ k mod 2 ^ LENGTH(32)" by (rule unat_of_nat)
  also have "\<dots> = 2 ^ k" using lt by simp
  finally show ?thesis by simp
qed

lemma overlap_test_window:
  assumes "k1 \<le> 12" and "k2 \<le> 12" and "s1 = 2 ^ k1" and "s2 = 2 ^ k2"
    and "a1 AND (s1 - 1) = 0" and "a2 AND (s2 - 1) = 0"
  shows "overlap_test a1 (NOT (s1 - 1)) a2 s2 \<longleftrightarrow>
         {unat a1 ..< unat a1 + unat s1} \<inter> {unat a2 ..< unat a2 + unat s2} \<noteq> {}"
proof -
  let ?K = "max k1 k2"
  have d1: "2 ^ k1 dvd unat a1" using assms(3,5) by (simp add: aligned_dvd)
  have d2: "2 ^ k2 dvd unat a2" using assms(4,6) by (simp add: aligned_dvd)
  have u1: "unat s1 = 2 ^ k1" using assms(1,3) by (simp add: unat_pow2_u32)
  have u2: "unat s2 = 2 ^ k2" using assms(2,4) by (simp add: unat_pow2_u32)
  have "overlap_test a1 (NOT (s1 - 1)) a2 s2 \<longleftrightarrow> ((a1 XOR a2) AND NOT (mask ?K)) = 0"
    by (simp add: overlap_test_def assms(3,4) flip: mask_eq_exp_minus_1 add: not_mask_and)
  also have "\<dots> \<longleftrightarrow> unat a1 div 2 ^ ?K = unat a2 div 2 ^ ?K"
    by (simp add: and_not_mask_eq_0 drop_bit_xor xor_eq_0 drop_bit_eq_unat_div)
  also have "\<dots> \<longleftrightarrow> unat a1 < unat a2 + 2 ^ k2 \<and> unat a2 < unat a1 + 2 ^ k1"
    using d1 d2 by (rule window_nat_sym)
  also have "\<dots> \<longleftrightarrow> {unat a1 ..< unat a1 + unat s1} \<inter> {unat a2 ..< unat a2 + unat s2} \<noteq> {}"
    unfolding u1 u2
  proof
    assume h: "unat a1 < unat a2 + 2 ^ k2 \<and> unat a2 < unat a1 + 2 ^ k1"
    then have "max (unat a1) (unat a2) \<in> {unat a1 ..< unat a1 + 2 ^ k1} \<inter> {unat a2 ..< unat a2 + 2 ^ k2}"
      by auto
    then show "{unat a1 ..< unat a1 + 2 ^ k1} \<inter> {unat a2 ..< unat a2 + 2 ^ k2} \<noteq> {}" by blast
  next
    assume "{unat a1 ..< unat a1 + 2 ^ k1} \<inter> {unat a2 ..< unat a2 + 2 ^ k2} \<noteq> {}"
    then obtain x where "x \<in> {unat a1 ..< unat a1 + 2 ^ k1} \<inter> {unat a2 ..< unat a2 + 2 ^ k2}"
      by blast
    then have "unat a1 \<le> x" "x < unat a1 + 2 ^ k1" "unat a2 \<le> x" "x < unat a2 + 2 ^ k2"
      by simp_all
    then show "unat a1 < unat a2 + 2 ^ k2 \<and> unat a2 < unat a1 + 2 ^ k1" by linarith
  qed
  finally show ?thesis .
qed

subsection \<open>The argument check\<close>

lemma bit_width_0: "bit_width 0 = 0"
  by (simp add: bit_width.simps)

lemma bit_width_pos: "n \<noteq> 0 \<Longrightarrow> bit_width n = Suc (bit_width (n div 2))"
  by (subst bit_width.simps) simp

lemma bit_width_pow2: "bit_width (2 ^ k) = Suc k"
  by (induction k) (simp_all add: bit_width_pos bit_width_0)

lemma bit_width_bound: "n < 2 ^ k \<Longrightarrow> bit_width n \<le> k"
proof (induction k arbitrary: n)
  case 0
  then show ?case by (simp add: bit_width_0)
next
  case (Suc k)
  show ?case
  proof (cases "n = 0")
    case True
    then show ?thesis by (simp add: bit_width_0)
  next
    case False
    from Suc.prems have "n div 2 < 2 ^ k" by simp
    from Suc.IH[OF this] False show ?thesis by (simp add: bit_width_pos)
  qed
qed

lemma cntlz32_pow2: "k \<le> 12 \<Longrightarrow> cntlz32 (2 ^ k) = 31 - k"
  by (simp add: cntlz32_def unat_pow2_u32 bit_width_pow2)

lemma cntlz32_pos_lt: "x \<noteq> 0 \<Longrightarrow> cntlz32 x < 32"
proof -
  assume "x \<noteq> 0"
  then have "unat x \<noteq> 0" by (simp add: unat_eq_zero)
  then have "bit_width (unat x) > 0" by (simp add: bit_width_pos)
  moreover have "bit_width (unat x) \<le> 32"
    using bit_width_bound[of "unat x" 32] unsigned_less[of x, where 'a=nat] by simp
  ultimately show ?thesis by (simp add: cntlz32_def)
qed

lemma unat_ucast_u64: "unat (ucast (x::u32) :: u64) = unat x"
proof -
  have "unat x < 2 ^ 32" using unsigned_less[of x, where 'a=nat] by simp
  then have "unat x < 2 ^ 64" by simp
  then show ?thesis by (simp add: unsigned_ucast_eq take_bit_nat_eq_self)
qed

lemma ucast_pow2_u64: "k \<le> 12 \<Longrightarrow> (ucast ((2::u32) ^ k) :: u64) = 2 ^ k"
proof -
  assume k: "k \<le> 12"
  then have "(2::nat) ^ k \<le> 2 ^ 12" by (intro power_increasing) simp_all
  then have lt: "(2::nat) ^ k < 2 ^ 64" by simp
  have "unat ((2::u64) ^ k) = unat (of_nat (2 ^ k) :: u64)" by simp
  also have "\<dots> = 2 ^ k mod 2 ^ LENGTH(64)" by (rule unat_of_nat)
  also have "\<dots> = 2 ^ k" using lt by simp
  finally show ?thesis using k by (simp add: word_unat_eq_iff unat_ucast_u64 unat_pow2_u32)
qed

lemma align_v_pow2: "k \<le> 12 \<Longrightarrow> drop_bit (31 - k) (0x80000000 :: u64) = 2 ^ k"
proof -
  assume "k \<le> 12"
  have "(0x80000000 :: u64) = 2 ^ 31" by simp
  then have "drop_bit (31 - k) (0x80000000 :: u64) = drop_bit (31 - k) (2 ^ 31 :: u64)" by simp
  also have "\<dots> = 2 ^ (31 - (31 - k))" by (simp only: drop_bit_exp_eq) (simp add: possible_bit_def)
  also have "\<dots> = 2 ^ k" using \<open>k \<le> 12\<close> by simp
  finally show ?thesis .
qed

lemma drop_bit_top_u64: "c < 32 \<Longrightarrow> drop_bit c (0x80000000 :: u64) = 2 ^ (31 - c)"
proof -
  assume "c < 32"
  have "(0x80000000 :: u64) = 2 ^ 31" by simp
  then have "drop_bit c (0x80000000 :: u64) = drop_bit c (2 ^ 31 :: u64)" by simp
  also have "\<dots> = 2 ^ (31 - c)" using \<open>c < 32\<close>
    by (simp only: drop_bit_exp_eq) (simp add: possible_bit_def)
  finally show ?thesis .
qed

lemma unat_pow2_u64: "k < 32 \<Longrightarrow> unat ((2::u64) ^ k) = 2 ^ k"
proof -
  assume "k < 32"
  then have "(2::nat) ^ k < 2 ^ 32" by (intro power_strict_increasing) simp_all
  then have lt: "(2::nat) ^ k < 2 ^ 64" by simp
  have "unat (of_nat (2 ^ k) :: u64) = 2 ^ k mod 2 ^ LENGTH(64)" by (rule unat_of_nat)
  also have "\<dots> = 2 ^ k" using lt by simp
  finally show ?thesis by simp
qed

lemma unat_pow2_u32_lt: "k < 32 \<Longrightarrow> unat ((2::u32) ^ k) = 2 ^ k"
proof -
  assume "k < 32"
  then have lt: "(2::nat) ^ k < 2 ^ 32" by (intro power_strict_increasing) simp_all
  have "unat (of_nat (2 ^ k) :: u32) = 2 ^ k mod 2 ^ LENGTH(32)" by (rule unat_of_nat)
  also have "\<dots> = 2 ^ k" using lt by simp
  finally show ?thesis by simp
qed

lemma aligned_ucast_u64:
  "((ucast (a::u32) :: u64) AND (2 ^ k - 1)) = 0 \<longleftrightarrow> (a AND (2 ^ k - 1)) = 0"
proof -
  have "((ucast a :: u64) AND mask k) = 0 \<longleftrightarrow> 2 ^ k dvd unat (ucast a :: u64)"
    by (simp add: and_mask_dvd_nat)
  also have "\<dots> \<longleftrightarrow> 2 ^ k dvd unat a" by (simp only: unat_ucast_u64)
  also have "\<dots> \<longleftrightarrow> (a AND mask k) = 0" by (simp add: and_mask_dvd_nat)
  finally show ?thesis by (simp only: mask_eq_exp_minus_1)
qed

lemma pow2_le_4096: "k \<le> 12 \<Longrightarrow> (2::u32) ^ k \<le> 4096"
proof -
  assume "k \<le> 12"
  then have "(2::nat) ^ k \<le> 2 ^ 12" by (intro power_increasing) simp_all
  then show ?thesis using \<open>k \<le> 12\<close> by (simp add: word_le_nat_alt unat_pow2_u32)
qed

lemma valid_args:
  assumes "k \<le> 12" "sz = 2 ^ k" "addr AND (sz - 1) = 0" "addr \<noteq> 0"
  shows "\<not> invalid_args addr sz"
proof -
  have "sz \<noteq> 0" using assms(1,2) by (simp)
  moreover have "\<not> sz > 4096" using pow2_le_4096[OF assms(1)] assms(2) by (simp add: not_less)
  ultimately show ?thesis using assms
    by (simp add: invalid_args_def cntlz32_pow2 align_v_pow2 ucast_pow2_u64 aligned_ucast_u64)
qed

lemma invalid_args_null: "invalid_args 0 sz"
  by (simp add: invalid_args_def Let_def)

lemma ucast_pred_u64:
  assumes "(sz::u32) \<noteq> 0"
  shows "(ucast sz :: u64) - 1 = ucast (sz - 1)"
proof -
  have p: "unat sz > 0" using assms by (simp add: unat_gt_0)
  then have "(ucast sz :: u64) \<noteq> 0" by (simp add: word_unat_eq_iff unat_ucast_u64)
  then have "unat ((ucast sz :: u64) - 1) = unat sz - 1"
    by (simp add: unat_minus_one unat_ucast_u64)
  moreover have "unat (ucast (sz - 1) :: u64) = unat sz - 1"
    using assms by (simp add: unat_ucast_u64 unat_minus_one)
  ultimately show ?thesis by (simp add: word_unat_eq_iff)
qed

lemma ucast_and_u64_eq_0:
  "((ucast (a::u32) :: u64) AND ucast (b::u32)) = 0 \<longleftrightarrow> (a AND b) = 0"
proof -
  have "((ucast a :: u64) AND ucast b) = ucast (a AND b)"
    by (rule bit_word_eqI) (auto simp: bit_simps)
  moreover have "(ucast (a AND b) :: u64) = 0 \<longleftrightarrow> (a AND b) = 0"
    by (simp add: word_unat_eq_iff unat_ucast_u64)
  ultimately show ?thesis by simp
qed

lemma valid_args_aligned:
  assumes "\<not> invalid_args addr sz"
  shows "addr \<noteq> 0 \<and> sz \<noteq> 0 \<and> (addr AND (sz - 1)) = 0"
proof -
  from assms have a: "addr \<noteq> 0" and z: "sz \<noteq> 0"
    and e: "(ucast sz :: u64) = drop_bit (cntlz32 sz) 0x80000000"
    and m: "((ucast addr :: u64) AND (drop_bit (cntlz32 sz) 0x80000000 - 1)) = 0"
    by (simp_all add: invalid_args_def Let_def)
  from m have "((ucast addr :: u64) AND ((ucast sz :: u64) - 1)) = 0" by (simp only: e)
  then have "(addr AND (sz - 1)) = 0"
    by (simp only: ucast_pred_u64[OF z] ucast_and_u64_eq_0)
  with a z show ?thesis by simp
qed

lemma valid_args_pow2:
  assumes "\<not> invalid_args addr sz"
  shows "\<exists>k \<le> 12. sz = 2 ^ k"
proof -
  from assms have z: "sz \<noteq> 0" and le: "sz \<le> 4096"
    and e: "(ucast sz :: u64) = drop_bit (cntlz32 sz) 0x80000000"
    by (simp_all add: invalid_args_def Let_def not_less)
  define k where "k = 31 - cntlz32 sz"
  have c: "cntlz32 sz < 32" using z by (rule cntlz32_pos_lt)
  then have k: "k < 32" by (simp add: k_def)
  have "(ucast sz :: u64) = 2 ^ k" using e drop_bit_top_u64[OF c] by (simp add: k_def)
  then have "unat (ucast sz :: u64) = 2 ^ k" using unat_pow2_u64[OF k] by simp
  then have u: "unat sz = 2 ^ k" by (simp add: unat_ucast_u64)
  then have s: "sz = 2 ^ k" using unat_pow2_u32_lt[OF k] by (simp add: word_unat_eq_iff)
  have "unat sz \<le> 4096" using le by (simp add: word_le_nat_alt)
  then have "(2::nat) ^ k \<le> 2 ^ 12" using u by simp
  then have "k \<le> 12" by (simp only: power_increasing_iff[of 2]) 
  with s show ?thesis by blast
qed

lemma invalid_args_iff:
  "\<not> invalid_args addr sz \<longleftrightarrow> addr \<noteq> 0 \<and> (\<exists>k \<le> 12. sz = 2 ^ k) \<and> (addr AND (sz - 1)) = 0"
  using valid_args valid_args_pow2 valid_args_aligned by blast

subsection \<open>The overlap rule of notifications\<close>

text \<open>
  Claim C3. Let \<open>s1 = 2^k1\<close> and \<open>s2 = 2^k2\<close> be powers of two in \<open>[1, 4096]\<close>, \<open>a1\<close>
  aligned to \<open>s1\<close> and \<open>a2\<close> aligned to \<open>s2\<close>. The mask test of \<^verbatim>\<open>_notify_at\<close> for an event
  at \<open>(a2, s2)\<close> on a waiter registered with address \<open>a1\<close> and mask \<open>~(s1 - 1)\<close> holds if and
  only if the intervals \<open>[a1, a1 + s1)\<close> and \<open>[a2, a2 + s2)\<close> have an address in common.
\<close>

theorem overlap_test_is_interval_overlap:
  assumes "k1 \<le> 12" and "k2 \<le> 12" and "s1 = 2 ^ k1" and "s2 = 2 ^ k2"
    and "a1 AND (s1 - 1) = 0" and "a2 AND (s2 - 1) = 0"
  shows "overlap_test a1 (NOT (s1 - 1)) a2 s2 \<longleftrightarrow>
         {unat a1 ..< unat a1 + unat s1} \<inter> {unat a2 ..< unat a2 + unat s2} \<noteq> {}"
  using assms by (rule overlap_test_window)

text \<open>
  An instance: a 16-byte window at \<open>0x40000\<close> and a 4-byte event at \<open>0x40008\<close>.
\<close>

theorem overlap_test_is_interval_overlap_witness:
  "overlap_test 0x40000 (NOT (16 - 1)) 0x40008 4"
proof -
  have "(262152::nat) \<in> {unat (0x40000::u32) ..< unat (0x40000::u32) + unat (16::u32)}
          \<inter> {unat (0x40008::u32) ..< unat (0x40008::u32) + unat (4::u32)}"
    by simp
  then have "{unat (0x40000::u32) ..< unat (0x40000::u32) + unat (16::u32)}
          \<inter> {unat (0x40008::u32) ..< unat (0x40008::u32) + unat (4::u32)} \<noteq> {}"
    by blast
  moreover have "(0x40000::u32) AND (16 - 1) = 0" "(0x40008::u32) AND (4 - 1) = 0" by simp_all
  ultimately show ?thesis
    using overlap_test_is_interval_overlap[of 4 2 16 4 "0x40000" "0x40008"] by simp
qed

text \<open>
  The same for the arguments as the code accepts them: a waiter registered with
  \<open>(a1, s1)\<close> (its mask as \<^verbatim>\<open>reset\<close> sets it) and an event \<open>(a2, s2)\<close>, both passing the argument
  check of \<^verbatim>\<open>_add_waiter\<close> and \<^verbatim>\<open>notify_at\<close>.
\<close>

lemma registered_waiter_overlap:
  assumes "\<not> invalid_args a1 s1" and "\<not> invalid_args a2 s2"
  shows "overlap_test (w_addr (reset w a1 s1 t p)) (w_mask (reset w a1 s1 t p)) a2 s2 \<longleftrightarrow>
         {unat a1 ..< unat a1 + unat s1} \<inter> {unat a2 ..< unat a2 + unat s2} \<noteq> {}"
proof -
  from assms(1) obtain k1 where k1: "k1 \<le> 12" "s1 = 2 ^ k1" "a1 AND (s1 - 1) = 0"
    using invalid_args_iff[of a1 s1] by blast
  from assms(2) obtain k2 where k2: "k2 \<le> 12" "s2 = 2 ^ k2" "a2 AND (s2 - 1) = 0"
    using invalid_args_iff[of a2 s2] by blast
  show ?thesis
    using overlap_test_window[OF k1(1) k2(1) k1(2) k2(2) k1(3) k2(3)] by (simp add: reset_def)
qed

subsection \<open>The reservation mutex\<close>

text \<open>
  Locking the free mutex takes it; locking it again by its holder raises \<^verbatim>\<open>Deadlock\<close>; a
  call of \<open>lock\<close> that returns was made in one of these two situations.
\<close>

lemma lock_free:
  "g_reservation_mutex s = None \<Longrightarrow> lock t s = Some (Inr (s\<lparr>g_reservation_mutex := Some t\<rparr>))"
  by (subst lock.simps) simp

lemma lock_self: "g_reservation_mutex s = Some t \<Longrightarrow> lock t s = Some (Inl Deadlock)"
  by (subst lock.simps) simp

lemma lock_returns:
  assumes "lock t s = Some r"
  shows "g_reservation_mutex s = None \<or> g_reservation_mutex s = Some t"
proof (rule lock.raw_induct[rotated,
        where P = "\<lambda>t s r. g_reservation_mutex s = None \<or> g_reservation_mutex s = Some t"])
  show "lock t s = Some r" by fact
next
  fix f :: "tid \<Rightarrow> vm_state \<Rightarrow> (error + vm_state) option" and t s r
  assume IH: "\<And>t s r. f t s = Some r \<Longrightarrow>
                 g_reservation_mutex s = None \<or> g_reservation_mutex s = Some t"
    and eq: "(if g_reservation_mutex s = None
              then Some (Inr (s\<lparr>g_reservation_mutex := Some t\<rparr>))
              else if g_reservation_mutex s = Some t then Some (Inl Deadlock) else f t s) = Some r"
  show "g_reservation_mutex s = None \<or> g_reservation_mutex s = Some t"
  proof (cases "g_reservation_mutex s = None \<or> g_reservation_mutex s = Some t")
    case True
    then show ?thesis .
  next
    case False
    then have "f t s = Some r" using eq by auto
    then show ?thesis by (rule IH)
  qed
qed

text \<open>
  While another thread holds the mutex, \<open>lock\<close> does not return.
\<close>

lemma lock_waits: "g_reservation_mutex s = Some u \<Longrightarrow> u \<noteq> t \<Longrightarrow> lock t s = None"
  using lock_returns[of t s] by (cases "lock t s") auto

lemma unlock_held:
  "g_reservation_mutex s = Some t \<Longrightarrow> unlock t s = Inr (s\<lparr>g_reservation_mutex := None\<rparr>)"
  by (simp add: unlock_def)

lemma mutex_restore: "g_reservation_mutex s = None \<Longrightarrow> s\<lparr>g_reservation_mutex := None\<rparr> = s"
  by (cases s) simp

lemma locked_free:
  "g_reservation_mutex s = None \<Longrightarrow> locked t s body = Some (body (s\<lparr>g_reservation_mutex := Some t\<rparr>))"
  by (simp add: locked_def lock_free)

lemma locked_self: "g_reservation_mutex s = Some t \<Longrightarrow> locked t s body = Some (Inl Deadlock)"
  by (simp add: locked_def lock_self)

lemma locked_returns:
  assumes "locked t s body = Some (Inr x)"
  shows "g_reservation_mutex s = None \<and> body (s\<lparr>g_reservation_mutex := Some t\<rparr>) = Inr x"
proof -
  from assms obtain r where r: "lock t s = Some r"
    by (auto simp: locked_def split: option.splits)
  from lock_returns[OF r] show ?thesis
  proof
    assume "g_reservation_mutex s = None"
    then show ?thesis using assms by (simp add: locked_free)
  next
    assume "g_reservation_mutex s = Some t"
    then show ?thesis using assms by (simp add: locked_self)
  qed
qed

subsection \<open>The example states\<close>

lemmas flag_defs = page_readable_def page_writable_def page_allocated_def page_no_reservations_def

lemma vm_start_fields:
  "g_pages vm_start = (\<lambda>_. 0)" "host_ok vm_start = (\<lambda>_. True)"
  "g_reservation_addr vm_start = 0" "g_reservation_owner vm_start = None"
  "g_reservation_mutex vm_start = None"
  by (simp_all add: vm_start_def)

lemma page_range_one: "page_range 0x20000 0x1000 = [32]"
  by (simp add: page_range_def)

lemma us_page_map_start:
  "us_page_map vm_start 0x20000 0x1000 (page_readable OR page_writable) = Inr vm_page_mapped"
  by (simp add: vm_page_mapped_def us_page_map_def page_range_one vm_start_def flag_defs)

lemma vm_page_mapped_fields:
  "g_pages vm_page_mapped 32 = 131"
  "host_ok vm_page_mapped = (\<lambda>_. True)"
  "g_reservation_owner vm_page_mapped = None"
  "g_reservation_addr vm_page_mapped = 0"
  "g_reservation_size vm_page_mapped = 0"
  "g_reservation_mutex vm_page_mapped = None"
  "g_priv_prot vm_page_mapped 32 = PROT_RW"
  by (simp_all add: vm_page_mapped_def us_page_map_def page_range_one vm_start_def flag_defs
        set_prot_def)

lemma invalid_args_example: "\<not> invalid_args 0x20000 4"
  using valid_args[of 2 4 "0x20000"] by simp

lemma reservation_acquire_example:
  "\<exists>d. reservation_acquire 1 0x20000 4 vm_page_mapped = Some (Inr (d, vm_reserved))"
  by (simp add: vm_reserved_def reservation_acquire_def invalid_args_example vm_page_mapped_fields
        locked_free unlock_def flag_defs us_reservation_set_def)

lemma vm_reserved_fields:
  "g_pages vm_reserved 32 = 131"
  "host_ok vm_reserved = (\<lambda>_. True)"
  "g_reservation_owner vm_reserved = Some 1"
  "g_reservation_addr vm_reserved = 0x20000"
  "g_reservation_size vm_reserved = 4"
  "g_reservation_mutex vm_reserved = None"
  "g_priv_prot vm_reserved 32 = PROT_RW"
  by (simp_all add: vm_reserved_def reservation_acquire_def invalid_args_example vm_page_mapped_fields
        locked_free unlock_def flag_defs us_reservation_set_def)

lemma only_page_32: "131072 \<le> i * 4096 \<and> i * 4096 < 135168 \<longleftrightarrow> i = (32::nat)"
  by auto

lemma only_page_32': "32 \<le> i \<and> i < 33 \<longleftrightarrow> i = (32::nat)"
  by auto

lemma only_page_32_bytes: "131072 \<le> a \<and> a < 135168 \<Longrightarrow> a div 4096 = (32::nat)"
  by auto

lemma check_addr_start: "check_addr vm_start 0x10000 1 = Inr False"
  by (simp add: check_addr_def vm_start_def page_allocated_def)

lemma cntlz32_4096: "cntlz32 0x1000 = 19"
  by (simp add: cntlz32_def bit_width.simps)

lemma cntlz32_512M: "cntlz32 0x20000000 = 2"
  by (simp add: cntlz32_def bit_width.simps)

subsection \<open>The page table query\<close>

lemma check_addr_loop_all:
  "check_addr_loop pg ns \<longleftrightarrow> (\<forall>i \<in> set ns. (pg i AND page_allocated) = page_allocated)"
  by (induction ns) auto

lemma pages_of_interval:
  assumes "S > 0"
  shows "(\<forall>i. A div 4096 \<le> i \<and> i \<le> (A + S - 1) div 4096 \<longrightarrow> P i) \<longleftrightarrow>
         (\<forall>a::nat. A \<le> a \<and> a < A + S \<longrightarrow> P (a div 4096))"
proof
  assume h: "\<forall>i. A div 4096 \<le> i \<and> i \<le> (A + S - 1) div 4096 \<longrightarrow> P i"
  show "\<forall>a. A \<le> a \<and> a < A + S \<longrightarrow> P (a div 4096)"
  proof (intro allI impI)
    fix a assume a: "A \<le> a \<and> a < A + S"
    then have "A div 4096 \<le> a div 4096" by (simp add: div_le_mono)
    moreover from a have "a \<le> A + S - 1" by linarith
    then have "a div 4096 \<le> (A + S - 1) div 4096" by (rule div_le_mono)
    ultimately show "P (a div 4096)" using h by blast
  qed
next
  assume h: "\<forall>a. A \<le> a \<and> a < A + S \<longrightarrow> P (a div 4096)"
  show "\<forall>i. A div 4096 \<le> i \<and> i \<le> (A + S - 1) div 4096 \<longrightarrow> P i"
  proof (intro allI impI)
    fix i assume i: "A div 4096 \<le> i \<and> i \<le> (A + S - 1) div 4096"
    show "P i"
    proof (cases "i = A div 4096")
      case True
      from assms have "A \<le> A \<and> A < A + S" by simp
      with h have "P (A div 4096)" by blast
      with True show ?thesis by simp
    next
      case False
      with i have "A div 4096 < i" by simp
      then have "A < i * 4096" by (simp add: div_less_iff_less_mult)
      moreover from i have "i * 4096 \<le> A + S - 1" by (simp add: less_eq_div_iff_mult_less_eq)
      ultimately have "A \<le> i * 4096 \<and> i * 4096 < A + S" using assms by linarith
      with h have "P (i * 4096 div 4096)" by blast
      then show ?thesis by simp
    qed
  qed
qed

lemma unat_div_4096: "unat ((a::u32) div 4096) = unat a div 4096"
  by (simp add: unat_div)

lemma no_overflow_iff:
  assumes "(sz::u32) \<noteq> 0"
  shows "\<not> (addr + (sz - 1) < addr) \<longleftrightarrow> unat addr + unat sz \<le> 2 ^ 32"
proof -
  have u: "unat (sz - 1) = unat sz - 1" using assms by (simp add: unat_minus_one)
  have "unat sz > 0" using assms by (simp add: unat_gt_0)
  moreover have "\<not> (addr + (sz - 1) < addr) \<longleftrightarrow> addr \<le> addr + (sz - 1)" by auto
  moreover have "\<dots> \<longleftrightarrow> unat addr + unat (sz - 1) < 2 ^ 32"
    by (simp add: no_plus_overflow_unat_size word_size)
  ultimately show ?thesis using u by auto
qed

lemma unat_last_byte:
  assumes "(sz::u32) \<noteq> 0" "unat addr + unat sz \<le> 2 ^ 32"
  shows "unat (addr + sz - 1) = unat addr + unat sz - 1"
proof -
  have u: "unat (sz - 1) = unat sz - 1" using assms by (simp add: unat_minus_one)
  have p: "unat sz > 0" using assms by (simp add: unat_gt_0)
  have e: "addr + sz - 1 = addr + (sz - 1)" by simp
  have "unat (addr + (sz - 1)) = unat addr + unat (sz - 1)"
    using assms(2) u p by (intro unat_add_lem[THEN iffD1]) simp
  then show ?thesis unfolding e using u p by linarith
qed

text \<open>
  Claim C4. For every 32-bit \<open>addr\<close> and every \<open>size > 0\<close>, \<^verbatim>\<open>check_addr(addr, size)\<close> returns
  true if and only if the interval \<open>[addr, addr + size)\<close> does not pass the end of the 32-bit
  address space and the page of every address of the interval has its allocated flag set.
\<close>

theorem check_addr_iff_interval_allocated:
  assumes "sz \<noteq> 0"
  shows "check_addr s addr sz =
           Inr (unat addr + unat sz \<le> 2 ^ 32 \<and>
                (\<forall>a. unat addr \<le> a \<and> a < unat addr + unat sz \<longrightarrow>
                     (g_pages s (a div 4096) AND page_allocated) = page_allocated))"
proof (cases "unat addr + unat sz \<le> 2 ^ 32")
  case False
  then have "addr + (sz - 1) < addr" using no_overflow_iff[OF assms, of addr] by blast
  then show ?thesis using False assms by (simp add: check_addr_def)
next
  case True
  then have no: "\<not> (addr + (sz - 1) < addr)" using no_overflow_iff[OF assms, of addr] by blast
  have p: "unat sz > 0" using assms by (simp add: unat_gt_0)
  have "check_addr_loop (g_pages s) [unat (addr div 4096) ..< Suc (unat ((addr + sz - 1) div 4096))]
        \<longleftrightarrow> (\<forall>i. unat addr div 4096 \<le> i \<and> i \<le> (unat addr + unat sz - 1) div 4096 \<longrightarrow>
               (g_pages s i AND page_allocated) = page_allocated)"
    by (auto simp: check_addr_loop_all unat_div_4096 unat_last_byte[OF assms True])
  also have "\<dots> \<longleftrightarrow> (\<forall>a. unat addr \<le> a \<and> a < unat addr + unat sz \<longrightarrow>
                     (g_pages s (a div 4096) AND page_allocated) = page_allocated)"
    using p by (rule pages_of_interval)
  finally show ?thesis using no True assms by (simp add: check_addr_def)
qed

text \<open>
  An instance: the page mapped at \<open>0x20000\<close>, checked over its whole length.
\<close>

theorem check_addr_iff_interval_allocated_witness:
  "check_addr vm_page_mapped 0x20000 0x1000 = Inr True"
proof -
  have "\<forall>a. unat (0x20000::u32) \<le> a \<and> a < unat (0x20000::u32) + unat (0x1000::u32) \<longrightarrow>
          (g_pages vm_page_mapped (a div 4096) AND page_allocated) = page_allocated"
    by (auto simp: only_page_32_bytes vm_page_mapped_fields flag_defs)
  then show ?thesis
    using check_addr_iff_interval_allocated[of "0x1000" vm_page_mapped "0x20000"] by simp
qed

subsection \<open>Reservations\<close>

lemma us_notify_at_fields [simp]:
  "g_mem (us_notify_at s a z) = g_mem s"
  "g_pages (us_notify_at s a z) = g_pages s"
  "g_reservation_owner (us_notify_at s a z) = g_reservation_owner s"
  "g_reservation_addr (us_notify_at s a z) = g_reservation_addr s"
  "g_reservation_size (us_notify_at s a z) = g_reservation_size s"
  "g_tls_did_break_reservation (us_notify_at s a z) = g_tls_did_break_reservation s"
  "g_reservation_mutex (us_notify_at s a z) = g_reservation_mutex s"
  by (simp_all add: us_notify_at_def)

lemma us_reservation_break_tls:
  "us_reservation_break s a = Inr (b, s') \<Longrightarrow>
     g_tls_did_break_reservation s' = g_tls_did_break_reservation s \<and> g_mem s' = g_mem s
     \<and> g_reservation_mutex s' = g_reservation_mutex s"
  by (auto simp: us_reservation_break_def Let_def split: if_splits)

lemma us_reservation_break_same_page:
  "g_reservation_addr s = a \<Longrightarrow> us_reservation_break s a = Inr (b, s') \<Longrightarrow>
     b \<and> g_reservation_owner s' = None \<and> g_reservation_addr s' = 0 \<and> g_reservation_size s' = 0"
  by (auto simp: us_reservation_break_def Let_def split: if_splits)

lemma us_reservation_set_fields:
  "us_reservation_set s a n = Inr s' \<Longrightarrow>
     g_tls_did_break_reservation s' = g_tls_did_break_reservation s \<and> g_mem s' = g_mem s
     \<and> g_reservation_owner s' = g_reservation_owner s \<and> g_reservation_addr s' = g_reservation_addr s
     \<and> g_reservation_size s' = g_reservation_size s \<and> host_ok s' = host_ok s
     \<and> g_reservation_mutex s' = g_reservation_mutex s"
  by (auto simp: us_reservation_set_def Let_def split: if_splits)

lemma aligned_no_overflow:
  assumes "k \<le> 12" "(a::u32) AND (2 ^ k - 1) = 0"
  shows "unat a + 2 ^ k \<le> 2 ^ 32"
proof -
  have d: "(2::nat) ^ k dvd unat a" using assms(2) by (simp add: aligned_dvd)
  have "(2::nat) ^ k dvd 2 ^ 32" using assms(1) by (intro le_imp_power_dvd) simp
  moreover have "unat a < 2 ^ 32" using unsigned_less[of a, where 'a=nat] by simp
  ultimately have "\<not> (2 ^ 32 < unat a + 2 ^ k)"
    using multiples_lt[OF d, of "2 ^ 32"] by simp
  then show ?thesis by simp
qed

lemma memcpy_priv_inside:
  assumes "unat addr + unat sz \<le> 2 ^ 32" "i < unat sz"
  shows "memcpy_priv m addr data sz (addr + of_nat i) = data i"
proof -
  have "unat (of_nat i :: u32) = i" using assms by (simp add: unat_of_nat)
  then have "unat (addr + of_nat i) = unat addr + i"
    using assms by (simp add: unat_add_lem[THEN iffD1])
  then show ?thesis using assms by (simp add: memcpy_priv_def)
qed

lemma memcpy_priv_outside:
  "\<not> (unat addr \<le> unat a \<and> unat a < unat addr + unat sz) \<Longrightarrow> memcpy_priv m addr data sz a = m a"
  by (auto simp: memcpy_priv_def)

lemma page_of_addr: "((a::u32) AND NOT 0xfff) div 4096 = a div 4096"
proof -
  have "drop_bit 12 (a AND NOT (mask 12)) = drop_bit 12 a"
    by (rule bit_word_eqI) (auto simp: bit_simps dest: bit_imp_le_length)
  then show ?thesis by (simp add: drop_bit_eq_div mask_eq_exp_minus_1)
qed

lemma page_of_addr': "((a::u32) AND - 4096) div 4096 = a div 4096"
  using page_of_addr[of a] by simp

text \<open>
  \<^verbatim>\<open>reservation_update\<close> called with arguments that pass the check while the mutex is
  free.
\<close>

lemma reservation_update_locked:
  assumes "\<not> invalid_args addr sz" and "g_reservation_mutex s = None"
  shows "reservation_update t addr data sz s =
           Some (if \<not> (g_reservation_owner s = Some t \<and> g_reservation_addr s = addr
                      \<and> g_reservation_size s = sz) then Inr (False, s)
                 else if \<not> host_ok s (unat (addr div 4096)) then Inl System_failure
                 else if g_priv_prot s (unat (addr div 4096)) \<noteq> PROT_RW then Inl Access_violation
                 else Inr (True, us_notify_at
                        (s\<lparr>g_mem := memcpy_priv (g_mem s) addr data sz,
                            g_prot := (g_prot s)(unat (addr div 4096) := PROT_RW),
                            g_reservation_addr := 0, g_reservation_size := 0,
                            g_reservation_owner := None,
                            g_reservation_mutex := None\<rparr>) addr sz))"
proof -
  have e: "s\<lparr>g_reservation_mutex := None\<rparr> = s" using assms(2) by (rule mutex_restore)
  show ?thesis
  proof (cases "g_reservation_owner s = Some t \<and> g_reservation_addr s = addr
                  \<and> g_reservation_size s = sz")
    case False
    then show ?thesis
      using assms(1)
      by (auto simp: reservation_update_def locked_free[OF assms(2)] unlock_def e)
  next
    case True
    then show ?thesis
      using assms(1)
      by (simp add: reservation_update_def locked_free[OF assms(2)] unlock_def
                    us_reservation_set_def us_reservation_break_def page_of_addr' Let_def)
  qed
qed

text \<open>
  Claim C1, amended. Take a call \<^verbatim>\<open>reservation_update(addr, src, size)\<close> by thread \<open>t\<close> with
  \<open>addr\<close> not null, \<open>size\<close> a power of two in \<open>[1, 4096]\<close> and \<open>addr\<close> aligned to \<open>size\<close>. If \<open>t\<close>
  already holds the reservation mutex, the call raises \<^verbatim>\<open>Deadlock\<close>. If the mutex is free:
  the call returns false if and only if the current reservation is not exactly
  \<open>{owner = t, base = addr, size = size}\<close>, and then the whole state is unchanged; if the
  reservation is exactly that, the host accepts the protection change of the page and the
  page is read-write in the privileged view (it is mapped), the call returns true; if the
  reservation is exactly that and the host refuses the protection change, the call raises
  \<^verbatim>\<open>System failure\<close>; if the host accepts it and the page is not read-write in the
  privileged view, the store faults; and whenever the call returns true, the \<open>size\<close> bytes of \<open>src\<close> are in guest memory at \<open>addr\<close>, every
  other byte is unchanged, owner, base and size of the reservation are reset to the idle
  state, and the mutex is free again. (While another thread holds the mutex the call
  waits for it.)
\<close>

theorem reservation_update_result:
  assumes "k \<le> 12" and "sz = 2 ^ k" and "addr AND (sz - 1) = 0" and "addr \<noteq> 0"
  shows "(g_reservation_mutex s = Some t
            \<longrightarrow> reservation_update t addr data sz s = Some (Inl Deadlock))
       \<and> (g_reservation_mutex s = None \<longrightarrow>
           ((\<exists>s'. reservation_update t addr data sz s = Some (Inr (False, s'))) \<longleftrightarrow>
              \<not> (g_reservation_owner s = Some t \<and> g_reservation_addr s = addr
                 \<and> g_reservation_size s = sz))
         \<and> (\<forall>s'. reservation_update t addr data sz s = Some (Inr (False, s')) \<longrightarrow> s' = s)
         \<and> (g_reservation_owner s = Some t \<and> g_reservation_addr s = addr
              \<and> g_reservation_size s = sz \<and> host_ok s (unat (addr div 4096))
              \<and> g_priv_prot s (unat (addr div 4096)) = PROT_RW
            \<longrightarrow> (\<exists>s'. reservation_update t addr data sz s = Some (Inr (True, s'))))
         \<and> (g_reservation_owner s = Some t \<and> g_reservation_addr s = addr
              \<and> g_reservation_size s = sz \<and> \<not> host_ok s (unat (addr div 4096))
            \<longrightarrow> reservation_update t addr data sz s = Some (Inl System_failure))
         \<and> (g_reservation_owner s = Some t \<and> g_reservation_addr s = addr
              \<and> g_reservation_size s = sz \<and> host_ok s (unat (addr div 4096))
              \<and> g_priv_prot s (unat (addr div 4096)) \<noteq> PROT_RW
            \<longrightarrow> reservation_update t addr data sz s = Some (Inl Access_violation))
         \<and> (\<forall>s'. reservation_update t addr data sz s = Some (Inr (True, s')) \<longrightarrow>
               (\<forall>i < unat sz. g_mem s' (addr + of_nat i) = data i)
             \<and> (\<forall>a. \<not> (unat addr \<le> unat a \<and> unat a < unat addr + unat sz)
                     \<longrightarrow> g_mem s' a = g_mem s a)
             \<and> g_reservation_owner s' = None \<and> g_reservation_addr s' = 0
             \<and> g_reservation_size s' = 0 \<and> g_reservation_mutex s' = None))"
proof (intro conjI impI)
  assume "g_reservation_mutex s = Some t"
  then show "reservation_update t addr data sz s = Some (Inl Deadlock)"
    by (simp add: reservation_update_def locked_self)
next
  have v: "\<not> invalid_args addr sz" using assms by (rule valid_args)
  assume f: "g_reservation_mutex s = None"
  note r = reservation_update_locked[OF v f, of t data]
  show "(\<exists>s'. reservation_update t addr data sz s = Some (Inr (False, s'))) \<longleftrightarrow>
              \<not> (g_reservation_owner s = Some t \<and> g_reservation_addr s = addr
                 \<and> g_reservation_size s = sz)"
    unfolding r by auto
next
  have v: "\<not> invalid_args addr sz" using assms by (rule valid_args)
  assume f: "g_reservation_mutex s = None"
  note r = reservation_update_locked[OF v f, of t data]
  show "\<forall>s'. reservation_update t addr data sz s = Some (Inr (False, s')) \<longrightarrow> s' = s"
    unfolding r by (auto split: if_splits)
next
  assume f: "g_reservation_mutex s = None"
    and h: "g_reservation_owner s = Some t \<and> g_reservation_addr s = addr
              \<and> g_reservation_size s = sz \<and> host_ok s (unat (addr div 4096))
              \<and> g_priv_prot s (unat (addr div 4096)) = PROT_RW"
  have v: "\<not> invalid_args addr sz" using assms by (rule valid_args)
  note r = reservation_update_locked[OF v f, of t data]
  show "\<exists>s'. reservation_update t addr data sz s = Some (Inr (True, s'))"
    unfolding r using h by simp
next
  assume f: "g_reservation_mutex s = None"
    and h: "g_reservation_owner s = Some t \<and> g_reservation_addr s = addr
              \<and> g_reservation_size s = sz \<and> \<not> host_ok s (unat (addr div 4096))"
  have v: "\<not> invalid_args addr sz" using assms by (rule valid_args)
  note r = reservation_update_locked[OF v f, of t data]
  show "reservation_update t addr data sz s = Some (Inl System_failure)"
    unfolding r using h by simp
next
  assume f: "g_reservation_mutex s = None"
    and h: "g_reservation_owner s = Some t \<and> g_reservation_addr s = addr
              \<and> g_reservation_size s = sz \<and> host_ok s (unat (addr div 4096))
              \<and> g_priv_prot s (unat (addr div 4096)) \<noteq> PROT_RW"
  have v: "\<not> invalid_args addr sz" using assms by (rule valid_args)
  note r = reservation_update_locked[OF v f, of t data]
  show "reservation_update t addr data sz s = Some (Inl Access_violation)"
    unfolding r using h by simp
next
  have v: "\<not> invalid_args addr sz" using assms by (rule valid_args)
  assume f: "g_reservation_mutex s = None"
  note r = reservation_update_locked[OF v f, of t data]
  have ov: "unat addr + unat sz \<le> 2 ^ 32"
    using aligned_no_overflow[OF assms(1), of addr] assms(2,3) unat_pow2_u32[OF assms(1)] by simp
  show "\<forall>s'. reservation_update t addr data sz s = Some (Inr (True, s')) \<longrightarrow>
               (\<forall>i < unat sz. g_mem s' (addr + of_nat i) = data i)
             \<and> (\<forall>a. \<not> (unat addr \<le> unat a \<and> unat a < unat addr + unat sz)
                     \<longrightarrow> g_mem s' a = g_mem s a)
             \<and> g_reservation_owner s' = None \<and> g_reservation_addr s' = 0
             \<and> g_reservation_size s' = 0 \<and> g_reservation_mutex s' = None"
  proof (intro allI impI)
    fix s' assume "reservation_update t addr data sz s = Some (Inr (True, s'))"
    then have s': "s' = us_notify_at
                        (s\<lparr>g_mem := memcpy_priv (g_mem s) addr data sz,
                            g_prot := (g_prot s)(unat (addr div 4096) := PROT_RW),
                            g_reservation_addr := 0, g_reservation_size := 0,
                            g_reservation_owner := None,
                            g_reservation_mutex := None\<rparr>) addr sz"
      unfolding r by (auto split: if_splits)
    have m: "g_mem s' = memcpy_priv (g_mem s) addr data sz" by (simp add: s')
    have "\<forall>i < unat sz. g_mem s' (addr + of_nat i) = data i"
      unfolding m using ov by (simp add: memcpy_priv_inside)
    moreover have "\<forall>a. \<not> (unat addr \<le> unat a \<and> unat a < unat addr + unat sz) \<longrightarrow>
                        g_mem s' a = g_mem s a"
      unfolding m by (simp add: memcpy_priv_outside)
    moreover have "g_reservation_owner s' = None" "g_reservation_addr s' = 0"
        "g_reservation_size s' = 0" "g_reservation_mutex s' = None"
      by (simp_all add: s')
    ultimately show "(\<forall>i < unat sz. g_mem s' (addr + of_nat i) = data i)
             \<and> (\<forall>a. \<not> (unat addr \<le> unat a \<and> unat a < unat addr + unat sz)
                     \<longrightarrow> g_mem s' a = g_mem s a)
             \<and> g_reservation_owner s' = None \<and> g_reservation_addr s' = 0
             \<and> g_reservation_size s' = 0 \<and> g_reservation_mutex s' = None"
      by simp
  qed
qed

text \<open>
  An instance: thread \<open>1\<close> holds four bytes at \<open>0x20000\<close>, on a mapped page. The update by
  thread \<open>2\<close> returns false and changes nothing; the update by thread \<open>1\<close> returns true,
  stores the bytes and clears the reservation; the update by thread \<open>1\<close> made while it
  holds the mutex raises \<^verbatim>\<open>Deadlock\<close>.
\<close>

theorem reservation_update_result_witness:
  "reservation_update 2 0x20000 of_nat 4 vm_reserved = Some (Inr (False, vm_reserved))
   \<and> (\<exists>s'. reservation_update 1 0x20000 of_nat 4 vm_reserved = Some (Inr (True, s'))
            \<and> g_mem s' 0x20003 = 3 \<and> g_reservation_owner s' = None)
   \<and> reservation_update 1 0x20000 of_nat 4 (vm_reserved\<lparr>g_reservation_mutex := Some 1\<rparr>)
       = Some (Inl Deadlock)"
proof -
  have a: "(0x20000::u32) AND (4 - 1) = 0" "(0x20000::u32) \<noteq> 0" "(4::u32) = 2 ^ 2" "(2::nat) \<le> 12"
    by simp_all
  have pg: "unat ((0x20000::u32) div 4096) = 32" by simp
  note r2 = reservation_update_result[OF a(4) a(3) a(1) a(2), of vm_reserved 2 of_nat]
  note r1 = reservation_update_result[OF a(4) a(3) a(1) a(2), of vm_reserved 1 of_nat]
  note r3 = reservation_update_result[OF a(4) a(3) a(1) a(2),
              of "vm_reserved\<lparr>g_reservation_mutex := Some 1\<rparr>" 1 of_nat]
  have "reservation_update 2 0x20000 of_nat 4 vm_reserved = Some (Inr (False, vm_reserved))"
    using r2 by (auto simp: vm_reserved_fields)
  moreover from r1 obtain s' where s': "reservation_update 1 0x20000 of_nat 4 vm_reserved = Some (Inr (True, s'))"
    by (auto simp: vm_reserved_fields pg)
  moreover from r1 s' have "g_mem s' (0x20000 + of_nat 3) = of_nat 3" "g_reservation_owner s' = None"
    by (auto simp: vm_reserved_fields simp del: of_nat_numeral)
  moreover have "reservation_update 1 0x20000 of_nat 4 (vm_reserved\<lparr>g_reservation_mutex := Some 1\<rparr>)
       = Some (Inl Deadlock)"
    using r3 by simp
  ultimately show ?thesis by auto
qed

text \<open>
  Claim C1 as stated fails for the null address, which is aligned to every size: the
  reservation is not \<open>{1, 0, 4}\<close>, and the call, made while the mutex is free, does not
  return false but raises \<^verbatim>\<open>Invalid arguments\<close>.
\<close>

theorem reservation_update_null_counterexample:
  "reservation_update 1 0 of_nat 4 vm_start = Some (Inl Invalid_arguments)
   \<and> \<not> (g_reservation_owner vm_start = Some 1 \<and> g_reservation_addr vm_start = 0
          \<and> g_reservation_size vm_start = 4)"
  by (simp add: reservation_update_def invalid_args_null locked_free vm_start_fields)

text \<open>
  \<^verbatim>\<open>reservation_op\<close> returns whenever the mutex is free, its arguments pass the check, the
  host accepts the protection changes and the effect does not throw; the memory is then
  the one the effect left, no reservation is held and the mutex is free again.
\<close>

lemma reservation_op_returns:
  assumes "\<not> invalid_args addr sz" and "\<forall>p. host_ok s p" and "proc (g_mem s) = Inr m1"
    and "g_reservation_mutex s = None"
  shows "\<exists>s'. reservation_op t addr sz proc s = Some (Inr s') \<and> g_mem s' = m1
              \<and> g_reservation_owner s' = None \<and> g_reservation_mutex s' = None"
  using assms(1-3)
  by (auto simp: reservation_op_def locked_free[OF assms(4)] unlock_def
                 us_reservation_break_def us_reservation_set_def Let_def)

text \<open>
  Claim C10. Whenever \<^verbatim>\<open>reservation_op(addr, size, proc)\<close> called by thread \<open>t\<close> returns, the
  thread-local flag \<^verbatim>\<open>g_tls_did_break_reservation\<close> of \<open>t\<close> is true if and only if the
  reservation immediately before the call was not exactly
  \<open>{owner = t, base = addr, size = size}\<close>; in particular it is true when no reservation
  existed.
\<close>

theorem reservation_op_did_break:
  assumes "reservation_op t addr sz proc s = Some (Inr s')"
  shows "g_tls_did_break_reservation s' t \<longleftrightarrow>
           \<not> (g_reservation_owner s = Some t \<and> g_reservation_addr s = addr
              \<and> g_reservation_size s = sz)"
  using locked_returns[OF assms[unfolded reservation_op_def]]
  by (auto simp: Let_def unlock_def
           split: if_splits sum.splits prod.splits
           dest!: us_reservation_break_tls us_reservation_set_fields)

text \<open>
  Two instances: with no reservation at all the flag is true after the call; when the
  caller already holds exactly this reservation the flag is false.
\<close>

theorem reservation_op_did_break_witness:
  "(\<exists>s'. reservation_op 1 0x20000 4 Inr vm_page_mapped = Some (Inr s')
          \<and> g_tls_did_break_reservation s' 1)
   \<and> (\<exists>s'. reservation_op 1 0x20000 4 Inr vm_reserved = Some (Inr s')
          \<and> \<not> g_tls_did_break_reservation s' 1)"
proof -
  obtain s1 where s1: "reservation_op 1 0x20000 4 Inr vm_page_mapped = Some (Inr s1)"
    by (simp add: reservation_op_def invalid_args_example vm_page_mapped_fields
          locked_free unlock_def us_reservation_set_def us_reservation_break_def)
  obtain s2 where s2: "reservation_op 1 0x20000 4 Inr vm_reserved = Some (Inr s2)"
    by (simp add: reservation_op_def invalid_args_example vm_reserved_fields
          locked_free unlock_def us_reservation_set_def us_reservation_break_def)
  from reservation_op_did_break[OF s1] have "g_tls_did_break_reservation s1 1"
    by (simp add: vm_page_mapped_fields)
  moreover from reservation_op_did_break[OF s2] have "\<not> g_tls_did_break_reservation s2 1"
    by (simp add: vm_reserved_fields)
  ultimately show ?thesis using s1 s2 by blast
qed

text \<open>
  Claim C7, amended. If the calling thread \<open>t\<close> already holds the reservation mutex,
  \<^verbatim>\<open>reservation_query(addr, size, is_writing, callback)\<close> raises \<^verbatim>\<open>Deadlock\<close>. If the mutex is
  free and \<^verbatim>\<open>check_addr\<close> fails for \<open>addr\<close> (the page that contains it is not allocated), the
  call returns false, whatever the callback is, and leaves the whole state, the
  reservation included, unchanged. (While another thread holds the mutex the call waits
  for it.)
\<close>

theorem reservation_query_unallocated:
  "(g_reservation_mutex s = Some t
      \<longrightarrow> reservation_query t addr sz is_writing callback s = Some (Inl Deadlock))
   \<and> (g_reservation_mutex s = None \<and> check_addr s addr 1 = Inr False
      \<longrightarrow> reservation_query t addr sz is_writing callback s = Some (Inr (False, s)))"
proof (intro conjI impI)
  assume "g_reservation_mutex s = Some t"
  then show "reservation_query t addr sz is_writing callback s = Some (Inl Deadlock)"
    by (simp add: reservation_query_def locked_self)
next
  assume h: "g_reservation_mutex s = None \<and> check_addr s addr 1 = Inr False"
  then have "check_addr (s\<lparr>g_reservation_mutex := Some t\<rparr>) addr 1 = Inr False"
    by (simp add: check_addr_def)
  then show "reservation_query t addr sz is_writing callback s = Some (Inr (False, s))"
    using h mutex_restore[of s]
    by (simp add: reservation_query_def locked_free unlock_def)
qed

text \<open>
  An instance: no page is allocated at start, and the callback would throw if it were
  called. With the mutex free the call returns false; made by the holder of the mutex it
  raises \<^verbatim>\<open>Deadlock\<close>.
\<close>

theorem reservation_query_unallocated_witness:
  "reservation_query 1 0x10000 4 True (Inl \<circ> unat \<circ> (\<lambda>m. m 0)) vm_start
     = Some (Inr (False, vm_start))
   \<and> reservation_query 1 0x10000 4 True (Inl \<circ> unat \<circ> (\<lambda>m. m 0))
       (vm_start\<lparr>g_reservation_mutex := Some 1\<rparr>) = Some (Inl Deadlock)"
  using reservation_query_unallocated[of vm_start 1 "0x10000" 4 True "Inl \<circ> unat \<circ> (\<lambda>m. m 0)"]
        reservation_query_unallocated[of "vm_start\<lparr>g_reservation_mutex := Some 1\<rparr>" 1
                                        "0x10000" 4 True "Inl \<circ> unat \<circ> (\<lambda>m. m 0)"]
        check_addr_start
  by (simp add: vm_start_fields)

text \<open>
  Claim C7 as stated fails: for an address whose page is not allocated the call, made
  while the mutex is free, returns false, not true.
\<close>

theorem reservation_query_returns_false_counterexample:
  "check_addr vm_start 0x10000 1 = Inr False
   \<and> reservation_query 1 0x10000 4 True (Inr \<circ> Pair True) vm_start = Some (Inr (False, vm_start))"
  using mutex_restore[of vm_start]
  by (simp add: reservation_query_def locked_free unlock_def vm_start_fields
        check_addr_def page_allocated_def)

subsection \<open>Waiters\<close>

lemma retired_never_matches:
  assumes "\<not> invalid_args addr sz"
  shows "\<not> overlap_test 0 (NOT 0) addr sz"
proof
  assume "overlap_test 0 (NOT 0) addr sz"
  then have n: "(addr AND NOT (sz - 1)) = 0" by (simp add: overlap_test_def)
  from valid_args_aligned[OF assms] have a: "addr \<noteq> 0" and l: "(addr AND (sz - 1)) = 0" by simp_all
  have "addr = (addr AND (sz - 1)) OR (addr AND NOT (sz - 1))"
    by (rule bit_word_eqI) (auto simp: bit_simps)
  with n l have "addr = 0" by simp
  with a show False by simp
qed

text \<open>
  Claim C6, amended. Whenever \<^verbatim>\<open>try_notify\<close> returns true, the record afterwards has
  \<open>addr = 0\<close> and \<open>mask\<close> all ones; its predicate is null when the predicate returned true,
  and is the replacement that throws the captured exception again when the predicate
  threw; no event whose arguments pass the check of \<^verbatim>\<open>notify_at\<close> matches the record in
  \<^verbatim>\<open>_notify_at\<close>, and the sweep of \<^verbatim>\<open>notify_all\<close> passes over it.
\<close>

theorem try_notify_true_retires:
  assumes "try_notify w m = (True, w')"
  shows "w_addr w' = 0 \<and> w_mask w' = NOT 0
       \<and> (\<exists>p. w_pred w = Some p
              \<and> ((p m = Inr True \<and> w_pred w' = None)
                 \<or> (\<exists>e. p m = Inl e \<and> w_pred w' = Some (\<lambda>_. Inl e))))
       \<and> (\<forall>addr sz. \<not> invalid_args addr sz \<longrightarrow> \<not> overlap_test (w_addr w') (w_mask w') addr sz)
       \<and> (\<forall>m' n k. notify_all_loop m' [w'] n k = ([w'], n, k))"
proof -
  from assms have f: "w_addr w' = 0 \<and> w_mask w' = NOT 0
       \<and> (\<exists>p. w_pred w = Some p
              \<and> ((p m = Inr True \<and> w_pred w' = None)
                 \<or> (\<exists>e. p m = Inl e \<and> w_pred w' = Some (\<lambda>_. Inl e))))"
    by (auto simp: try_notify_def split: option.splits sum.splits bool.splits if_splits)
  then have "\<forall>addr sz. \<not> invalid_args addr sz \<longrightarrow> \<not> overlap_test (w_addr w') (w_mask w') addr sz"
    using retired_never_matches by simp
  moreover from f have "\<forall>m' n k. notify_all_loop m' [w'] n k = ([w'], n, k)" by simp
  ultimately show ?thesis using f by blast
qed

text \<open>
  An instance: a waiter on 16 bytes at \<open>0x40000\<close> whose predicate holds.
\<close>

theorem try_notify_true_retires_witness:
  "w_addr (snd (try_notify (reset waiter_nil 0x40000 16 1 (pred_byte_is 0x40000 0)) (g_mem vm_start))) = 0
   \<and> w_pred (snd (try_notify (reset waiter_nil 0x40000 16 1 (pred_byte_is 0x40000 0)) (g_mem vm_start))) = None
   \<and> \<not> overlap_test
          (w_addr (snd (try_notify (reset waiter_nil 0x40000 16 1 (pred_byte_is 0x40000 0)) (g_mem vm_start))))
          (w_mask (snd (try_notify (reset waiter_nil 0x40000 16 1 (pred_byte_is 0x40000 0)) (g_mem vm_start))))
          0x40000 16"
proof -
  let ?w = "reset waiter_nil 0x40000 16 1 (pred_byte_is 0x40000 0)"
  have t: "try_notify ?w (g_mem vm_start) = (True, snd (try_notify ?w (g_mem vm_start)))"
    by (simp add: try_notify_def reset_def pred_byte_is_def vm_start_def)
  have p: "pred_byte_is 0x40000 0 (g_mem vm_start) = Inr True"
    by (simp add: pred_byte_is_def vm_start_def)
  have v: "\<not> invalid_args 0x40000 16" using valid_args[of 4 16 "0x40000"] by simp
  have wp: "w_pred ?w = Some (pred_byte_is 0x40000 0)" by (simp add: reset_def)
  from try_notify_true_retires[OF t] v p wp show ?thesis by auto
qed

text \<open>
  Claim C6 as stated fails for a predicate that throws: \<^verbatim>\<open>try_notify\<close> returns true and the
  predicate of the record is not null afterwards.
\<close>

theorem try_notify_predicate_counterexample:
  "fst (try_notify (reset waiter_nil 0x40000 16 1 (pred_throw 7)) (g_mem vm_start))
   \<and> w_pred (snd (try_notify (reset waiter_nil 0x40000 16 1 (pred_throw 7)) (g_mem vm_start))) \<noteq> None"
  by (simp add: try_notify_def reset_def pred_throw_def)

subsection \<open>Page protection\<close>

lemma page_protect_test_all:
  "\<forall>i \<in> set ns. i < 0x100000 \<Longrightarrow>
   page_protect_test pg T ns = Inr (\<forall>i \<in> set ns. (pg i AND T) = (T OR page_allocated))"
  by (induction ns) auto

lemma us_reservation_break_cases:
  "(us_reservation_break s a = Inl System_failure \<and> \<not> (\<forall>p. host_ok s p))
   \<or> (\<exists>b s1. us_reservation_break s a = Inr (b, s1) \<and> g_pages s1 = g_pages s
              \<and> host_ok s1 = host_ok s \<and> g_reservation_mutex s1 = g_reservation_mutex s)"
  by (auto simp: us_reservation_break_def Let_def)

lemma us_reservation_break_ok:
  assumes "\<forall>p. host_ok s p"
  shows "\<exists>b s1. us_reservation_break s a = Inr (b, s1) \<and> g_pages s1 = g_pages s
                \<and> host_ok s1 = host_ok s"
  using assms by (auto simp: us_reservation_break_def Let_def)

text \<open>
  The second loop of \<^verbatim>\<open>page_protect\<close> over distinct pages of the table either rewrites the
  byte of each of them, or stops with \<^verbatim>\<open>System failure\<close>, which needs a page whose
  protection the host refuses to change.
\<close>

lemma page_protect_apply_cases:
  assumes "distinct ns" "\<forall>i \<in> set ns. i < 0x100000"
  shows "(page_protect_apply fs fc ns s = Inl System_failure \<and> \<not> (\<forall>p. host_ok s p))
       \<or> (\<exists>s'. page_protect_apply fs fc ns s = Inr s'
            \<and> (\<forall>i. g_pages s' i = (if i \<in> set ns then protect_byte fs fc (g_pages s i) else g_pages s i))
            \<and> host_ok s' = host_ok s \<and> g_reservation_mutex s' = g_reservation_mutex s)"
  using assms
proof (induction ns arbitrary: s)
  case Nil
  show ?case by simp
next
  case (Cons x ns)
  from us_reservation_break_cases[of s "of_nat x * 4096"] show ?case
  proof (elim disjE conjE exE)
    assume "us_reservation_break s (of_nat x * 4096) = Inl System_failure" "\<not> (\<forall>p. host_ok s p)"
    then show ?case by simp
  next
    fix b s1
    assume b: "us_reservation_break s (of_nat x * 4096) = Inr (b, s1)"
      and p1: "g_pages s1 = g_pages s" and h1: "host_ok s1 = host_ok s"
      and m1: "g_reservation_mutex s1 = g_reservation_mutex s"
    define new where "new = protect_byte fs fc (g_pages s x)"
    define s2 where "s2 = s1\<lparr>g_pages := (g_pages s1)(x := new)\<rparr>"
    define ch where "ch \<longleftrightarrow> g_pages s x AND (page_writable OR page_readable)
                            \<noteq> new AND (page_writable OR page_readable)"
    define s3 where "s3 = (if ch
                           then s2\<lparr>g_prot := (g_prot s2)(x := protection (new AND (page_writable OR page_readable)))\<rparr>
                           else s2)"
    have x: "x < 0x100000" using Cons.prems(2) by simp
    show ?case
    proof (cases "ch \<and> \<not> host_ok s x")
      case True
      then have "page_protect_apply fs fc (x # ns) s = Inl System_failure"
        using b x by (simp add: Let_def p1 h1 s2_def new_def ch_def)
      then show ?thesis using True by auto
    next
      case False
      then have step: "page_protect_apply fs fc (x # ns) s = page_protect_apply fs fc ns s3"
        using b x by (auto simp: Let_def p1 h1 s3_def s2_def new_def ch_def)
      have h3e: "host_ok s3 = host_ok s" by (simp add: s3_def s2_def h1)
      have m3: "g_reservation_mutex s3 = g_reservation_mutex s" by (simp add: s3_def s2_def m1)
      have g3: "g_pages s3 = (g_pages s)(x := new)" by (simp add: s3_def s2_def p1)
      from Cons.prems have d: "distinct ns" "\<forall>i \<in> set ns. i < 0x100000" "x \<notin> set ns" by simp_all
      from Cons.IH[OF d(1,2), of s3] show ?thesis
      proof (elim disjE conjE exE)
        assume "page_protect_apply fs fc ns s3 = Inl System_failure" "\<not> (\<forall>p. host_ok s3 p)"
        then show ?thesis using step by (simp add: h3e)
      next
        fix s'
        assume r: "page_protect_apply fs fc ns s3 = Inr s'"
          and g: "\<forall>i. g_pages s' i = (if i \<in> set ns then protect_byte fs fc (g_pages s3 i) else g_pages s3 i)"
          and h: "host_ok s' = host_ok s3" and m: "g_reservation_mutex s' = g_reservation_mutex s3"
        have "\<forall>i. g_pages s' i = (if i \<in> set (x # ns) then protect_byte fs fc (g_pages s i) else g_pages s i)"
          using g d(3) by (auto simp: g3 new_def)
        then show ?thesis using step r h m by (simp add: h3e m3)
      qed
    qed
  qed
qed

lemma page_protect_apply_result:
  assumes "\<forall>p. host_ok s p" "distinct ns" "\<forall>i \<in> set ns. i < 0x100000"
  shows "\<exists>s'. page_protect_apply fs fc ns s = Inr s'
            \<and> (\<forall>i. g_pages s' i = (if i \<in> set ns then protect_byte fs fc (g_pages s i) else g_pages s i))
            \<and> host_ok s' = host_ok s \<and> g_reservation_mutex s' = g_reservation_mutex s"
  using page_protect_apply_cases[OF assms(2,3), of fs fc s] assms(1) by blast

lemma protect_byte_eq:
  "protect_byte fs fc old = ((old OR (fs AND NOT fc)) AND NOT (fc AND NOT fs)) XOR (fs AND fc)"
  unfolding protect_byte_def Let_def
  by (rule bit_word_eqI) (auto simp: bit_simps)

lemma protect_byte_none: "protect_byte 0 0 old = old"
  by (simp add: protect_byte_def)

lemma page_aligned_unat:
  assumes "((sz::u32) OR addr) mod 4096 = 0"
  shows "unat addr mod 4096 = 0 \<and> unat sz mod 4096 = 0"
proof -
  have "((sz OR addr) AND mask 12) = 0"
    using assms word_mod_2p_is_mask[of 12 "sz OR addr"] by simp
  then have "take_bit 12 sz OR take_bit 12 addr = 0"
    by (simp add: take_bit_eq_mask bit.conj_disj_distrib2)
  then have "take_bit 12 sz = 0" "take_bit 12 addr = 0" by (simp_all add: or_eq_0_iff)
  then have "2 ^ 12 dvd unat sz" "2 ^ 12 dvd unat addr"
    using and_mask_dvd_nat[of 12 sz] and_mask_dvd_nat[of 12 addr]
    by (simp_all add: take_bit_eq_mask)
  then show ?thesis by (simp add: mod_eq_0_iff_dvd)
qed

lemma page_range_set:
  assumes "((sz::u32) OR addr) mod 4096 = 0"
  shows "i \<in> set (page_range addr sz) \<longleftrightarrow> unat addr \<le> i * 4096 \<and> i * 4096 < unat addr + unat sz"
proof -
  from page_aligned_unat[OF assms] obtain A S where A: "unat addr = 4096 * A" and S: "unat sz = 4096 * S"
    by (auto simp: mod_eq_0_iff_dvd elim!: dvdE)
  have "i \<in> set (page_range addr sz) \<longleftrightarrow> A \<le> i \<and> i < A + S"
    by (simp add: page_range_def unat_div A S)
  also have "\<dots> \<longleftrightarrow> unat addr \<le> i * 4096 \<and> i * 4096 < unat addr + unat sz"
    by (auto simp: A S)
  finally show ?thesis .
qed

lemma page_range_bound:
  assumes "unat addr + unat sz \<le> 2 ^ 32"
  shows "\<forall>i \<in> set (page_range addr sz). i < 0x100000"
proof
  fix i assume "i \<in> set (page_range addr sz)"
  then have "i < unat addr div 4096 + unat sz div 4096" by (simp add: page_range_def unat_div)
  moreover have "unat addr div 4096 * 4096 \<le> unat addr" by (rule div_times_less_eq_dividend)
  moreover have "unat sz div 4096 * 4096 \<le> unat sz" by (rule div_times_less_eq_dividend)
  ultimately show "i < 0x100000" using assms by simp
qed

text \<open>
  \<^verbatim>\<open>page_protect\<close> called while the mutex is free, on a range of whole pages inside the
  address space, in terms of the two loops.
\<close>

lemma page_protect_locked:
  assumes "sz \<noteq> 0" and "(sz OR addr) mod 4096 = 0" and "unat addr + unat sz \<le> 2 ^ 32"
    and "g_reservation_mutex s = None"
  shows "page_protect t s addr sz flags_test flags_set flags_clear =
           Some (if \<not> (\<forall>i. unat addr \<le> i * 4096 \<and> i * 4096 < unat addr + unat sz \<longrightarrow>
                          (g_pages s i AND (flags_test OR page_allocated)) = (flags_test OR page_allocated))
                 then Inr (False, s)
                 else if flags_set = 0 \<and> flags_clear = 0 then Inr (True, s)
                 else (case page_protect_apply flags_set flags_clear (page_range addr sz)
                              (s\<lparr>g_reservation_mutex := Some t\<rparr>) of
                         Inl e \<Rightarrow> Inl e
                       | Inr s1 \<Rightarrow> (case unlock t s1 of Inl e \<Rightarrow> Inl e | Inr s2 \<Rightarrow> Inr (True, s2))))"
proof -
  let ?T = "flags_test OR page_allocated"
  let ?all = "\<forall>i. unat addr \<le> i * 4096 \<and> i * 4096 < unat addr + unat sz \<longrightarrow>
                 (g_pages s i AND ?T) = ?T"
  have T: "?T OR page_allocated = ?T" by (simp add: ac_simps)
  have test: "page_protect_test (g_pages s) ?T (page_range addr sz) = Inr ?all"
    using page_protect_test_all[OF page_range_bound[OF assms(3)], of "g_pages s" ?T]
    by (simp add: T Ball_def page_range_set[OF assms(2)])
  have e: "s\<lparr>g_reservation_mutex := None\<rparr> = s" using assms(4) by (rule mutex_restore)
  show ?thesis
  proof (cases ?all)
    case False
    with test have "page_protect_test (g_pages s) ?T (page_range addr sz) = Inr False" by simp
    then show ?thesis
      using assms(1,2) False
      by (simp add: page_protect_def locked_free[OF assms(4)] unlock_def e)
  next
    case True
    with test have "page_protect_test (g_pages s) ?T (page_range addr sz) = Inr True" by simp
    then show ?thesis
      using assms(1,2) True
      by (simp add: page_protect_def locked_free[OF assms(4)] unlock_def e)
  qed
qed

text \<open>
  Claim C2, amended. Take \<open>addr\<close> and \<open>size\<close> that are multiples of 4096 with \<open>size > 0\<close> and
  the range \<open>[addr, addr + size)\<close> inside the address space, and a call
  \<^verbatim>\<open>page_protect(addr, size, test, set, clear)\<close> by thread \<open>t\<close>. If \<open>t\<close> already holds the
  reservation mutex, the call raises \<^verbatim>\<open>Deadlock\<close>. If the mutex is free: the call returns
  false and changes nothing if some covered page fails
  \<open>(flags & (test | allocated)) == (test | allocated)\<close>; if every covered page passes and
  \<open>set = clear = 0\<close>, it returns true and changes nothing; if every covered page passes, it
  either raises \<^verbatim>\<open>System failure\<close>, which needs a page whose protection the host refuses
  to change, or returns true, and then it has replaced the byte \<open>old\<close> of every covered
  page, and of no other page, by
  \<open>((old | (set & ~clear)) & ~(clear & ~set)) ^ (set & clear)\<close>: a bit of \<open>set\<close> only is set, a
  bit of \<open>clear\<close> only is cleared, and a bit of both is toggled; it returns true whenever
  the host accepts the protection changes. (While another thread holds the mutex the call
  waits for it.)
\<close>

theorem page_protect_result:
  assumes "sz \<noteq> 0" and "(sz OR addr) mod 4096 = 0" and "unat addr + unat sz \<le> 2 ^ 32"
  shows "(g_reservation_mutex s = Some t
           \<longrightarrow> page_protect t s addr sz flags_test flags_set flags_clear = Some (Inl Deadlock))
       \<and> (g_reservation_mutex s = None
           \<and> \<not> (\<forall>i. unat addr \<le> i * 4096 \<and> i * 4096 < unat addr + unat sz \<longrightarrow>
                 (g_pages s i AND (flags_test OR page_allocated)) = (flags_test OR page_allocated))
           \<longrightarrow> page_protect t s addr sz flags_test flags_set flags_clear = Some (Inr (False, s)))
       \<and> (g_reservation_mutex s = None
           \<and> (\<forall>i. unat addr \<le> i * 4096 \<and> i * 4096 < unat addr + unat sz \<longrightarrow>
                 (g_pages s i AND (flags_test OR page_allocated)) = (flags_test OR page_allocated))
           \<and> flags_set = 0 \<and> flags_clear = 0
           \<longrightarrow> page_protect t s addr sz flags_test flags_set flags_clear = Some (Inr (True, s)))
       \<and> (g_reservation_mutex s = None
           \<and> (\<forall>i. unat addr \<le> i * 4096 \<and> i * 4096 < unat addr + unat sz \<longrightarrow>
                 (g_pages s i AND (flags_test OR page_allocated)) = (flags_test OR page_allocated))
           \<longrightarrow> (page_protect t s addr sz flags_test flags_set flags_clear = Some (Inl System_failure)
                  \<and> \<not> (\<forall>p. host_ok s p))
               \<or> (\<exists>s'. page_protect t s addr sz flags_test flags_set flags_clear = Some (Inr (True, s'))
                  \<and> (\<forall>i. g_pages s' i =
                        (if unat addr \<le> i * 4096 \<and> i * 4096 < unat addr + unat sz
                         then ((g_pages s i OR (flags_set AND NOT flags_clear))
                                 AND NOT (flags_clear AND NOT flags_set))
                              XOR (flags_set AND flags_clear)
                         else g_pages s i))
                  \<and> g_reservation_mutex s' = None))"
proof -
  let ?T = "flags_test OR page_allocated"
  let ?all = "\<forall>i. unat addr \<le> i * 4096 \<and> i * 4096 < unat addr + unat sz \<longrightarrow>
                 (g_pages s i AND ?T) = ?T"
  let ?pp = "page_protect t s addr sz flags_test flags_set flags_clear"
  let ?new = "\<lambda>s'. \<forall>i. g_pages s' i =
                        (if unat addr \<le> i * 4096 \<and> i * 4096 < unat addr + unat sz
                         then ((g_pages s i OR (flags_set AND NOT flags_clear))
                                 AND NOT (flags_clear AND NOT flags_set))
                              XOR (flags_set AND flags_clear)
                         else g_pages s i)"
  have dl: "g_reservation_mutex s = Some t \<longrightarrow> ?pp = Some (Inl Deadlock)"
    by (simp add: page_protect_def locked_self)
  have a: "g_reservation_mutex s = None \<and> \<not> ?all \<longrightarrow> ?pp = Some (Inr (False, s))"
  proof (intro impI, elim conjE)
    assume f: "g_reservation_mutex s = None" and n: "\<not> ?all"
    show "?pp = Some (Inr (False, s))"
      unfolding page_protect_locked[OF assms f] using n by simp
  qed
  have b: "g_reservation_mutex s = None \<and> ?all \<and> flags_set = 0 \<and> flags_clear = 0
           \<longrightarrow> ?pp = Some (Inr (True, s))"
  proof (intro impI, elim conjE)
    assume f: "g_reservation_mutex s = None" and n: "?all" and z: "flags_set = 0" "flags_clear = 0"
    show "?pp = Some (Inr (True, s))"
      unfolding page_protect_locked[OF assms f] using n z by simp
  qed
  have c: "g_reservation_mutex s = None \<and> ?all
           \<longrightarrow> (?pp = Some (Inl System_failure) \<and> \<not> (\<forall>p. host_ok s p))
               \<or> (\<exists>s'. ?pp = Some (Inr (True, s')) \<and> ?new s' \<and> g_reservation_mutex s' = None)"
  proof (intro impI, elim conjE)
    assume f: "g_reservation_mutex s = None" and all: ?all
    note pl = page_protect_locked[OF assms f, of t flags_test flags_set flags_clear]
    show "(?pp = Some (Inl System_failure) \<and> \<not> (\<forall>p. host_ok s p))
               \<or> (\<exists>s'. ?pp = Some (Inr (True, s')) \<and> ?new s' \<and> g_reservation_mutex s' = None)"
    proof (cases "flags_set = 0 \<and> flags_clear = 0")
      case True
      then have "?pp = Some (Inr (True, s))" using pl all by simp
      then show ?thesis using True f by simp
    next
      case False
      have d: "distinct (page_range addr sz)" by (simp add: page_range_def)
      define s0 where "s0 = s\<lparr>g_reservation_mutex := Some t\<rparr>"
      have s0: "g_pages s0 = g_pages s" "host_ok s0 = host_ok s" "g_reservation_mutex s0 = Some t"
        by (simp_all add: s0_def)
      from page_protect_apply_cases[OF d page_range_bound[OF assms(3)], of flags_set flags_clear s0]
      show ?thesis
      proof (elim disjE conjE exE)
        assume "page_protect_apply flags_set flags_clear (page_range addr sz) s0 = Inl System_failure"
          and "\<not> (\<forall>p. host_ok s0 p)"
        then show ?thesis using pl all False by (simp add: s0_def)
      next
        fix s1
        assume r: "page_protect_apply flags_set flags_clear (page_range addr sz) s0 = Inr s1"
          and g: "\<forall>i. g_pages s1 i = (if i \<in> set (page_range addr sz)
                      then protect_byte flags_set flags_clear (g_pages s0 i) else g_pages s0 i)"
          and m: "g_reservation_mutex s1 = g_reservation_mutex s0"
        have "?pp = Some (Inr (True, s1\<lparr>g_reservation_mutex := None\<rparr>))"
          using pl all False r[unfolded s0_def] m s0(3) by (simp add: unlock_def)
        moreover have "?new (s1\<lparr>g_reservation_mutex := None\<rparr>)"
          using g by (simp add: s0 page_range_set[OF assms(2)] protect_byte_eq)
        ultimately show ?thesis by simp
      qed
    qed
  qed
  from dl a b c show ?thesis by blast
qed

text \<open>
  An instance: clearing \<open>writable\<close> on the page mapped read-write at \<open>0x20000\<close>, where the host
  accepts every change, leaves it allocated and readable; the same call made by the holder
  of the mutex raises \<^verbatim>\<open>Deadlock\<close>.
\<close>

theorem page_protect_result_witness:
  "(\<exists>s'. page_protect 1 vm_page_mapped 0x20000 0x1000 (page_readable OR page_writable) 0 page_writable
           = Some (Inr (True, s'))
        \<and> g_pages s' 32 = (page_allocated OR page_readable))
   \<and> page_protect 1 (vm_page_mapped\<lparr>g_reservation_mutex := Some 1\<rparr>) 0x20000 0x1000
         (page_readable OR page_writable) 0 page_writable = Some (Inl Deadlock)"
proof -
  have h: "(0x1000::u32) \<noteq> 0" "((0x1000::u32) OR 0x20000) mod 4096 = 0"
          "unat (0x20000::u32) + unat (0x1000::u32) \<le> 2 ^ 32"
    by simp_all
  have ok: "\<forall>p. host_ok vm_page_mapped p" by (simp add: vm_page_mapped_fields)
  have f: "g_reservation_mutex vm_page_mapped = None" by (simp add: vm_page_mapped_fields)
  have "\<forall>i. unat (0x20000::u32) \<le> i * 4096 \<and> i * 4096 < unat (0x20000::u32) + unat (0x1000::u32) \<longrightarrow>
          (g_pages vm_page_mapped i AND ((page_readable OR page_writable) OR page_allocated))
            = ((page_readable OR page_writable) OR page_allocated)"
    by (simp add: only_page_32' vm_page_mapped_fields flag_defs)
  with ok f page_protect_result[OF h, of vm_page_mapped 1 "page_readable OR page_writable" 0 page_writable]
  obtain s' where "page_protect 1 vm_page_mapped 0x20000 0x1000 (page_readable OR page_writable) 0 page_writable
           = Some (Inr (True, s'))"
     and "\<forall>i. g_pages s' i =
            (if unat (0x20000::u32) \<le> i * 4096 \<and> i * 4096 < unat (0x20000::u32) + unat (0x1000::u32)
             then ((g_pages vm_page_mapped i OR (0 AND NOT page_writable))
                     AND NOT (page_writable AND NOT 0)) XOR (0 AND page_writable)
             else g_pages vm_page_mapped i)"
    by blast
  then have 1: "\<exists>s'. page_protect 1 vm_page_mapped 0x20000 0x1000 (page_readable OR page_writable) 0 page_writable
           = Some (Inr (True, s'))
        \<and> g_pages s' 32 = (page_allocated OR page_readable)"
    by (auto simp: only_page_32' vm_page_mapped_fields flag_defs)
  have 2: "page_protect 1 (vm_page_mapped\<lparr>g_reservation_mutex := Some 1\<rparr>) 0x20000 0x1000
         (page_readable OR page_writable) 0 page_writable = Some (Inl Deadlock)"
    using page_protect_result[OF h, of "vm_page_mapped\<lparr>g_reservation_mutex := Some 1\<rparr>" 1
            "page_readable OR page_writable" 0 page_writable]
    by simp
  from 1 2 show ?thesis by simp
qed

text \<open>
  Claim C2 as stated fails in three ways, each for a call made while the mutex is free. A
  page that is not allocated passes the test \<open>(flags & 0) == 0\<close>, but the call returns
  false. With \<open>readable\<close> in both \<open>set\<close> and \<open>clear\<close> the byte \<open>0x83\<close> becomes \<open>0x82\<close> (the bit is
  toggled), while \<open>((old | set) & ~clear) ^ (set & clear)\<close> is \<open>0x83\<close>. A size of one byte
  fails the assertion of the function.
\<close>

theorem page_protect_counterexample:
  "page_protect 1 vm_start 0x10000 0x1000 0 page_readable 0 = Some (Inr (False, vm_start))
   \<and> (g_pages vm_start 0x10 AND 0) = 0
   \<and> page_protect 1 vm_page_mapped 0x20000 0x1000 0 page_readable page_readable
       = Some (Inr (True, vm_page_mapped\<lparr>g_pages := (g_pages vm_page_mapped)(32 := 0x82),
                                          g_prot := (g_prot vm_page_mapped)(32 := PROT_RW)\<rparr>))
   \<and> ((g_pages vm_page_mapped 0x20 OR page_readable) AND NOT page_readable)
         XOR (page_readable AND page_readable) = 0x83
   \<and> page_protect 1 vm_page_mapped 0x20000 1 0 page_no_reservations 0 = Some (Inl Assertion_failed)"
proof -
  have e1: "vm_start\<lparr>g_reservation_mutex := None\<rparr> = vm_start"
    by (rule mutex_restore) (simp add: vm_start_fields)
  have 1: "page_protect 1 vm_start 0x10000 0x1000 0 page_readable 0 = Some (Inr (False, vm_start))"
    using e1
    by (simp add: page_protect_def locked_free unlock_def page_range_def vm_start_fields flag_defs)
  have 2: "(g_pages vm_start 0x10 AND 0) = 0" by simp
  have e3: "\<And>f g. vm_page_mapped\<lparr>g_pages := f, g_prot := g, g_reservation_mutex := None\<rparr>
             = vm_page_mapped\<lparr>g_pages := f, g_prot := g\<rparr>"
    using mutex_restore[of "vm_page_mapped\<lparr>g_pages := f, g_prot := g\<rparr>" for f g]
    by (simp add: vm_page_mapped_fields)
  have 3: "page_protect 1 vm_page_mapped 0x20000 0x1000 0 page_readable page_readable
             = Some (Inr (True, vm_page_mapped\<lparr>g_pages := (g_pages vm_page_mapped)(32 := 0x82),
                                         g_prot := (g_prot vm_page_mapped)(32 := PROT_RW)\<rparr>))"
    by (simp add: page_protect_def locked_free unlock_def page_range_one vm_page_mapped_fields flag_defs
          us_reservation_break_def protect_byte_def protection_def Let_def e3)
  have 5: "((g_pages vm_page_mapped 0x20 OR page_readable) AND NOT page_readable)
         XOR (page_readable AND page_readable) = 0x83"
    by (simp add: vm_page_mapped_fields flag_defs)
  have 6: "page_protect 1 vm_page_mapped 0x20000 1 0 page_no_reservations 0 = Some (Inl Assertion_failed)"
    by (simp add: page_protect_def locked_free vm_page_mapped_fields)
  show ?thesis using 1 2 3 5 6 by simp
qed

subsection \<open>Blocks\<close>

lemma try_alloc_full:
  assumes "b_used b \<le> b_size b" and "b_size b < b_used b + sz"
  shows "try_alloc b s addr sz = Inr (False, b, s)"
  using assms by (auto simp: try_alloc_def not_less)

text \<open>
  When \<open>used + size\<close> exceeds the capacity of the block (and \<open>used\<close> itself does not),
  \<^verbatim>\<open>alloc\<close> returns \<open>0\<close> and changes nothing, in every block.
\<close>

lemma alloc_capacity_exceeded:
  assumes "4096 \<le> align_v" and "align_v = drop_bit (cntlz32 align_v) 0x80000000"
    and "b_used b \<le> b_size b"
    and "unat (b_used b) + unat (align sz0 4096) < 2 ^ 32"
    and "unat (b_size b) < unat (b_used b) + unat (align sz0 4096)"
  shows "alloc b s sz0 align_v = Some (Inr (0, b, s))"
proof -
  define sz where "sz = align sz0 4096"
  have "unat (b_used b + sz) = unat (b_used b) + unat sz"
    using assms(4) by (simp add: sz_def unat_add_lem[THEN iffD1])
  then have full: "b_size b < b_used b + sz"
    using assms(5) by (simp add: word_less_nat_alt sz_def)
  have t: "\<And>a. try_alloc b s a sz = Inr (False, b, s)"
    using assms(3) full by (rule try_alloc_full)
  have v: "\<not> (align_v < 4096 \<or> align_v \<noteq> drop_bit (cntlz32 align_v) 0x80000000)"
    using assms(1,2) by (simp add: not_less)
  show ?thesis
  proof (cases "sz = 0 \<or> sz > b_size b")
    case True
    then show ?thesis using v by (simp add: alloc_def sz_def[symmetric] Let_def)
  next
    case False
    have "alloc_loop b s sz align_v (align (b_addr b) align_v) = Some (Inr (0, b, s))"
      by (subst alloc_loop.simps) (simp add: t full)
    then show ?thesis using v False by (simp add: alloc_def sz_def[symmetric] Let_def)
  qed
qed

lemma try_alloc_False_unchanged:
  "try_alloc b s a sz = Inr (False, b1, s1) \<Longrightarrow> b1 = b \<and> s1 = s"
  by (auto simp: try_alloc_def split: if_splits sum.splits)

lemma try_alloc_no_capacity:
  "b_size b < b_used b + sz \<Longrightarrow> try_alloc b s a sz \<noteq> Inr (True, b', s')"
  by (auto simp: try_alloc_def split: if_splits sum.splits)

text \<open>
  The search loop, for a block whose bound \<open>base + size - 1\<close> leaves room for one more step
  of \<open>align\<close> below \<open>2^32\<close>, so that \<^verbatim>\<open>addr += align\<close> does not wrap: the loop ends, and it
  returns the first address of the scan where \<^verbatim>\<open>try_alloc\<close> succeeds, or \<open>0\<close> with nothing
  changed when \<^verbatim>\<open>try_alloc\<close> succeeds nowhere in the scan, or the exception of the first
  \<^verbatim>\<open>try_alloc\<close> that throws.
\<close>

lemma alloc_loop_first_fit:
  assumes "0 < align_v" and "unat (b_addr b + b_size b - 1) + unat align_v \<le> 2 ^ 32"
  shows "\<exists>r. alloc_loop b s sz align_v addr = Some r \<and>
     ((\<exists>a b' s'. r = Inr (a, b', s') \<and> a < b_addr b + b_size b - 1
          \<and> (\<exists>n. unat a = unat addr + n * unat align_v)
          \<and> try_alloc b s a sz = Inr (True, b', s')
          \<and> (\<forall>c n. unat c = unat addr + n * unat align_v \<and> c < a
                 \<longrightarrow> try_alloc b s c sz = Inr (False, b, s)))
    \<or> (r = Inr (0, b, s)
          \<and> (\<forall>c n b' s'. unat c = unat addr + n * unat align_v \<and> c < b_addr b + b_size b - 1
                 \<longrightarrow> try_alloc b s c sz \<noteq> Inr (True, b', s')))
    \<or> (\<exists>e c. r = Inl e \<and> c < b_addr b + b_size b - 1
          \<and> (\<exists>n. unat c = unat addr + n * unat align_v)
          \<and> try_alloc b s c sz = Inl e
          \<and> (\<forall>c' n. unat c' = unat addr + n * unat align_v \<and> c' < c
                 \<longrightarrow> try_alloc b s c' sz = Inr (False, b, s))))"
  (is "?P addr")
proof (induction "unat (b_addr b + b_size b - 1) - unat addr" arbitrary: addr rule: less_induct)
  case less
  let ?bound = "b_addr b + b_size b - 1"
  have A: "0 < unat align_v" using assms(1) by (simp add: word_less_nat_alt)
  show ?case
  proof (cases "addr < ?bound")
    case False
    have r: "alloc_loop b s sz align_v addr = Some (Inr (0, b, s))"
      using False by (subst alloc_loop.simps) simp
    have "\<forall>c n b' s'. unat c = unat addr + n * unat align_v \<and> c < ?bound
                 \<longrightarrow> try_alloc b s c sz \<noteq> Inr (True, b', s')"
      using False by (auto simp: word_less_nat_alt)
    with r show ?thesis by blast
  next
    case True
    have lt: "unat addr < unat ?bound" using True by (simp add: word_less_nat_alt)
    show ?thesis
    proof (cases "try_alloc b s addr sz")
      case (Inl e)
      have r: "alloc_loop b s sz align_v addr = Some (Inl e)"
        using True Inl by (subst alloc_loop.simps) simp
      have "\<forall>c' n. unat c' = unat addr + n * unat align_v \<and> c' < addr
                 \<longrightarrow> try_alloc b s c' sz = Inr (False, b, s)"
        by (auto simp: word_less_nat_alt)
      moreover have "\<exists>n. unat addr = unat addr + n * unat align_v" by (rule exI[of _ 0]) simp
      ultimately show ?thesis using r True Inl by blast
    next
      case (Inr x)
      obtain ok b1 s1 where x: "x = (ok, b1, s1)" by (cases x) auto
      show ?thesis
      proof (cases ok)
        case True': True
        have r: "alloc_loop b s sz align_v addr = Some (Inr (addr, b1, s1))"
          using True Inr x True' by (subst alloc_loop.simps) simp
        have "\<forall>c n. unat c = unat addr + n * unat align_v \<and> c < addr
                 \<longrightarrow> try_alloc b s c sz = Inr (False, b, s)"
          by (auto simp: word_less_nat_alt)
        moreover have "\<exists>n. unat addr = unat addr + n * unat align_v" by (rule exI[of _ 0]) simp
        moreover have "try_alloc b s addr sz = Inr (True, b1, s1)" using Inr x True' by simp
        ultimately show ?thesis using r True by blast
      next
        case False
        then have f0: "try_alloc b s addr sz = Inr (False, b1, s1)" using Inr x by simp
        then have same: "b1 = b" "s1 = s" using try_alloc_False_unchanged by blast+
        have f: "try_alloc b s addr sz = Inr (False, b, s)" using f0 same by simp
        show ?thesis
        proof (cases "b_size b < b_used b + sz")
          case full: True
          have r: "alloc_loop b s sz align_v addr = Some (Inr (0, b, s))"
            using True f full by (subst alloc_loop.simps) simp
          have "\<forall>c n b' s'. unat c = unat addr + n * unat align_v \<and> c < ?bound
                 \<longrightarrow> try_alloc b s c sz \<noteq> Inr (True, b', s')"
            using try_alloc_no_capacity[OF full] by blast
          with r show ?thesis by blast
        next
          case room: False
          have step: "alloc_loop b s sz align_v addr = alloc_loop b s sz align_v (addr + align_v)"
            using True f room by (subst alloc_loop.simps) simp
          have nw: "unat (addr + align_v) = unat addr + unat align_v"
            using lt assms(2) by (intro unat_add_lem[THEN iffD1]) simp
          have "unat ?bound - unat (addr + align_v) < unat ?bound - unat addr"
            using nw lt A by simp
          from less[OF this] obtain r where
            r: "alloc_loop b s sz align_v (addr + align_v) = Some r"
            and cases: "(\<exists>a b' s'. r = Inr (a, b', s') \<and> a < ?bound
                    \<and> (\<exists>n. unat a = unat (addr + align_v) + n * unat align_v)
                    \<and> try_alloc b s a sz = Inr (True, b', s')
                    \<and> (\<forall>c n. unat c = unat (addr + align_v) + n * unat align_v \<and> c < a
                           \<longrightarrow> try_alloc b s c sz = Inr (False, b, s)))
              \<or> (r = Inr (0, b, s)
                    \<and> (\<forall>c n b' s'. unat c = unat (addr + align_v) + n * unat align_v \<and> c < ?bound
                           \<longrightarrow> try_alloc b s c sz \<noteq> Inr (True, b', s')))
              \<or> (\<exists>e c. r = Inl e \<and> c < ?bound
                    \<and> (\<exists>n. unat c = unat (addr + align_v) + n * unat align_v)
                    \<and> try_alloc b s c sz = Inl e
                    \<and> (\<forall>c' n. unat c' = unat (addr + align_v) + n * unat align_v \<and> c' < c
                           \<longrightarrow> try_alloc b s c' sz = Inr (False, b, s)))"
            by blast
          have shift: "\<And>(c::u32) n. unat c = unat addr + n * unat align_v \<Longrightarrow>
                          c = addr \<or> (\<exists>k. unat c = unat (addr + align_v) + k * unat align_v)"
          proof -
            fix c :: u32 and n assume c: "unat c = unat addr + n * unat align_v"
            show "c = addr \<or> (\<exists>k. unat c = unat (addr + align_v) + k * unat align_v)"
            proof (cases n)
              case 0
              then show ?thesis using c by (simp add: word_unat_eq_iff)
            next
              case (Suc k)
              then have "unat c = unat (addr + align_v) + k * unat align_v" using c nw by simp
              then show ?thesis by blast
            qed
          qed
          have unshift: "\<And>(c::u32) k. unat c = unat (addr + align_v) + k * unat align_v \<Longrightarrow>
                          \<exists>n. unat c = unat addr + n * unat align_v"
          proof -
            fix c :: u32 and k assume "unat c = unat (addr + align_v) + k * unat align_v"
            then have "unat c = unat addr + Suc k * unat align_v" using nw by simp
            then show "\<exists>n. unat c = unat addr + n * unat align_v" by blast
          qed
          from cases show ?thesis
          proof (elim disjE exE conjE)
            fix a b' s' n
            assume h: "r = Inr (a, b', s')" "a < ?bound"
              "unat a = unat (addr + align_v) + n * unat align_v"
              "try_alloc b s a sz = Inr (True, b', s')"
              "\<forall>c n. unat c = unat (addr + align_v) + n * unat align_v \<and> c < a
                           \<longrightarrow> try_alloc b s c sz = Inr (False, b, s)"
            have "\<forall>c n. unat c = unat addr + n * unat align_v \<and> c < a
                           \<longrightarrow> try_alloc b s c sz = Inr (False, b, s)"
              using shift f h(5) by blast
            moreover have "\<exists>n. unat a = unat addr + n * unat align_v" using unshift h(3) by blast
            ultimately show ?thesis using step r h(1,2,4) by auto
          next
            assume h: "r = Inr (0, b, s)"
              "\<forall>c n b' s'. unat c = unat (addr + align_v) + n * unat align_v \<and> c < ?bound
                           \<longrightarrow> try_alloc b s c sz \<noteq> Inr (True, b', s')"
            have "\<forall>c n b' s'. unat c = unat addr + n * unat align_v \<and> c < ?bound
                           \<longrightarrow> try_alloc b s c sz \<noteq> Inr (True, b', s')"
            proof (intro allI impI)
              fix c n b' s'
              assume c: "unat c = unat addr + n * unat align_v \<and> c < ?bound"
              from shift[of c n] c have "c = addr \<or> (\<exists>k. unat c = unat (addr + align_v) + k * unat align_v)"
                by blast
              then show "try_alloc b s c sz \<noteq> Inr (True, b', s')"
                using f h(2) c by auto
            qed
            then show ?thesis using step r h(1) by auto
          next
            fix e c n
            assume h: "r = Inl e" "c < ?bound"
              "unat c = unat (addr + align_v) + n * unat align_v"
              "try_alloc b s c sz = Inl e"
              "\<forall>c' n. unat c' = unat (addr + align_v) + n * unat align_v \<and> c' < c
                           \<longrightarrow> try_alloc b s c' sz = Inr (False, b, s)"
            have "\<forall>c' n. unat c' = unat addr + n * unat align_v \<and> c' < c
                           \<longrightarrow> try_alloc b s c' sz = Inr (False, b, s)"
              using shift f h(5) by blast
            moreover have "\<exists>n. unat c = unat addr + n * unat align_v" using unshift h(3) by blast
            ultimately show ?thesis using step r h(1,2,4) by auto
          qed
        qed
      qed
    qed
  qed
qed

lemma drop_bit_top_u32: "c < 32 \<Longrightarrow> drop_bit c (0x80000000 :: u32) = 2 ^ (31 - c)"
proof -
  assume "c < 32"
  have "(0x80000000 :: u32) = 2 ^ 31" by simp
  then have "drop_bit c (0x80000000 :: u32) = drop_bit c (2 ^ 31 :: u32)" by simp
  also have "\<dots> = 2 ^ (31 - c)" using \<open>c < 32\<close>
    by (simp only: drop_bit_exp_eq) (simp add: possible_bit_def)
  finally show ?thesis .
qed

lemma valid_alignment_pow2:
  assumes "4096 \<le> align_v" and "align_v = drop_bit (cntlz32 align_v) 0x80000000"
  shows "\<exists>j < 32. align_v = 2 ^ j"
proof -
  have "align_v \<noteq> 0" using assms(1) by auto
  then have "cntlz32 align_v < 32" by (rule cntlz32_pos_lt)
  then have "drop_bit (cntlz32 align_v) (0x80000000 :: u32) = 2 ^ (31 - cntlz32 align_v)"
    by (rule drop_bit_top_u32)
  with assms(2) have "align_v = 2 ^ (31 - cntlz32 align_v)" by simp
  moreover have "31 - cntlz32 align_v < 32" by simp
  ultimately show ?thesis by blast
qed

lemma unat_and_not_mask: "unat ((x::u32) AND NOT (mask j)) = unat x - unat x mod 2 ^ j"
proof -
  have "(x AND NOT (mask j)) = push_bit j (drop_bit j x)"
    by (rule bit_word_eqI) (auto simp: bit_simps)
  then have "unat (x AND NOT (mask j)) = take_bit 32 (push_bit j (drop_bit j (unat x)))"
    by (simp add: unsigned_push_bit_eq unat_drop_bit_eq)
  also have "push_bit j (drop_bit j (unat x)) = unat x div 2 ^ j * 2 ^ j"
    by (simp add: push_bit_eq_mult drop_bit_eq_div)
  also have "unat x div 2 ^ j * 2 ^ j = unat x - unat x mod 2 ^ j"
    by (simp add: minus_mod_eq_div_mult)
  also have "take_bit 32 (unat x - unat x mod 2 ^ j) = unat x - unat x mod 2 ^ j"
  proof -
    have "unat x < 2 ^ 32" using unsigned_less[of x, where 'a=nat] by simp
    then have "unat x - unat x mod 2 ^ j < 2 ^ 32" by simp
    then show ?thesis by (simp add: take_bit_nat_eq_self)
  qed
  finally show ?thesis .
qed

lemma align_round_up:
  assumes "j < 32" and "unat v + 2 ^ j \<le> 2 ^ 32"
  shows "2 ^ j dvd unat (align v (2 ^ j)) \<and> unat v \<le> unat (align v (2 ^ j))
         \<and> unat (align v (2 ^ j)) < unat v + 2 ^ j"
proof -
  let ?x = "v + (2 ^ j - 1)"
  have pj: "unat ((2::u32) ^ j) = 2 ^ j" using assms(1) by (rule unat_pow2_u32_lt)
  have "(2::u32) ^ j \<noteq> 0" using assms(1) by simp
  then have m: "unat ((2::u32) ^ j - 1) = 2 ^ j - 1" using pj by (simp add: unat_minus_one)
  have x: "unat ?x = unat v + (2 ^ j - 1)"
    using assms(2) m by (intro unat_add_lem[THEN iffD1, THEN trans]) simp_all
  have a: "unat (align v (2 ^ j)) = unat ?x - unat ?x mod 2 ^ j"
    by (simp add: align_def unat_and_not_mask flip: mask_eq_exp_minus_1)
  have d: "2 ^ j dvd unat ?x - unat ?x mod 2 ^ j" by (simp add: minus_mod_eq_div_mult)
  have lt: "unat ?x mod 2 ^ j < 2 ^ j" by simp
  have le: "unat ?x mod 2 ^ j \<le> unat ?x" by simp
  have pos: "(0::nat) < 2 ^ j" by simp
  have "unat v \<le> unat ?x - unat ?x mod 2 ^ j" using x lt le pos by linarith
  moreover have "unat ?x - unat ?x mod 2 ^ j < unat v + 2 ^ j" using x lt le pos by linarith
  ultimately show ?thesis using a d by simp
qed

lemma multiple_steps:
  assumes "(A::nat) dvd s0" "A dvd c" "s0 \<le> c"
  shows "\<exists>n. c = s0 + n * A"
proof -
  from assms(1,2) have "A dvd c - s0" by (rule dvd_diff_nat[rotated])
  then obtain n where "c - s0 = A * n" by (auto elim: dvdE)
  with assms(3) have "c = s0 + n * A" by (simp add: mult.commute)
  then show ?thesis by blast
qed

lemma least_multiple:
  assumes "(A::nat) dvd s0" "A dvd c" "B \<le> c" "s0 < B + A" "0 < A"
  shows "s0 \<le> c"
proof (rule ccontr)
  assume "\<not> s0 \<le> c"
  then have "c < s0" by simp
  moreover have "s0 < c + A" using assms(3,4) by simp
  ultimately have "c < s0 \<and> s0 < c + A" by simp
  moreover have "s0 < c + A \<longleftrightarrow> s0 \<le> c" using assms(2,1,5) by (rule multiples_lt)
  ultimately show False by linarith
qed

text \<open>
  First fit, for a valid alignment and a block with \<open>base + size + align \<le> 2^32\<close>. The
  candidates are the multiples of \<open>align\<close> from the block base upward, below
  \<open>base + size - 1\<close>. \<^verbatim>\<open>alloc(size, align)\<close> returns the lowest candidate where \<^verbatim>\<open>try_alloc\<close>
  succeeds on the size rounded up to 4 KiB, every lower candidate having failed; or \<open>0\<close>,
  with nothing changed, when the rounded size is \<open>0\<close> or larger than the block or
  \<^verbatim>\<open>try_alloc\<close> succeeds at no candidate; or the exception of the first \<^verbatim>\<open>try_alloc\<close> that
  throws.
\<close>

lemma alloc_first_fit:
  assumes "4096 \<le> align_v" and "align_v = drop_bit (cntlz32 align_v) 0x80000000"
    and "unat (b_addr b) + unat (b_size b) + unat align_v \<le> 2 ^ 32"
  shows "\<exists>r. alloc b s sz0 align_v = Some r \<and>
     ((\<exists>a b' s'. r = Inr (a, b', s')
          \<and> unat (b_addr b) \<le> unat a \<and> unat align_v dvd unat a
          \<and> unat a + 1 < unat (b_addr b) + unat (b_size b)
          \<and> try_alloc b s a (align sz0 4096) = Inr (True, b', s')
          \<and> (\<forall>c. unat (b_addr b) \<le> unat c \<and> unat align_v dvd unat c \<and> c < a
                 \<longrightarrow> try_alloc b s c (align sz0 4096) = Inr (False, b, s)))
    \<or> (r = Inr (0, b, s)
          \<and> (align sz0 4096 = 0 \<or> b_size b < align sz0 4096
              \<or> (\<forall>c b' s'. unat (b_addr b) \<le> unat c \<and> unat align_v dvd unat c
                     \<and> unat c + 1 < unat (b_addr b) + unat (b_size b)
                     \<longrightarrow> try_alloc b s c (align sz0 4096) \<noteq> Inr (True, b', s'))))
    \<or> (\<exists>e c. r = Inl e
          \<and> unat (b_addr b) \<le> unat c \<and> unat align_v dvd unat c
          \<and> unat c + 1 < unat (b_addr b) + unat (b_size b)
          \<and> try_alloc b s c (align sz0 4096) = Inl e
          \<and> (\<forall>c'. unat (b_addr b) \<le> unat c' \<and> unat align_v dvd unat c' \<and> c' < c
                 \<longrightarrow> try_alloc b s c' (align sz0 4096) = Inr (False, b, s))))"
proof -
  define sz where "sz = align sz0 4096"
  define B where "B = unat (b_addr b)"
  define S where "S = unat (b_size b)"
  define A where "A = unat align_v"
  define start where "start = align (b_addr b) align_v"
  let ?bound = "b_addr b + b_size b - 1"
  have v: "\<not> (align_v < 4096 \<or> align_v \<noteq> drop_bit (cntlz32 align_v) 0x80000000)"
    using assms(1,2) by (simp add: not_less)
  show ?thesis
  proof (cases "sz = 0 \<or> sz > b_size b")
    case True
    then have "alloc b s sz0 align_v = Some (Inr (0, b, s))"
      using v by (simp add: alloc_def sz_def[symmetric] Let_def)
    then show ?thesis using True unfolding sz_def by blast
  next
    case False
    then have "b_size b \<noteq> 0" by (auto simp: word_gt_0)
    then have Spos: "0 < S" by (simp add: S_def unat_gt_0)
    from valid_alignment_pow2[OF assms(1,2)] obtain j where j: "j < 32" "align_v = 2 ^ j" by blast
    have Aj: "A = 2 ^ j" using j by (simp add: A_def unat_pow2_u32_lt)
    have Apos: "0 < A" by (simp add: Aj)
    have avpos: "0 < align_v" using Apos by (simp add: A_def word_less_nat_alt)
    have sum: "B + S + A \<le> 2 ^ 32" using assms(3) by (simp add: B_def S_def A_def)
    have ub: "unat ?bound = B + S - 1"
      using \<open>b_size b \<noteq> 0\<close> sum unat_last_byte[of "b_size b" "b_addr b"] by (simp add: B_def S_def)
    have nowrap: "unat ?bound + unat align_v \<le> 2 ^ 32" using ub sum Spos by (simp add: A_def)
    have "unat (b_addr b) + 2 ^ j \<le> 2 ^ 32" using sum Aj by (simp add: B_def)
    from align_round_up[OF j(1) this]
    have st: "A dvd unat start" "B \<le> unat start" "unat start < B + A"
      by (simp_all add: start_def j(2) Aj B_def)
    have cand: "\<And>c::u32. (\<exists>n. unat c = unat start + n * unat align_v) \<longleftrightarrow> B \<le> unat c \<and> A dvd unat c"
    proof -
      fix c :: u32
      show "(\<exists>n. unat c = unat start + n * unat align_v) \<longleftrightarrow> B \<le> unat c \<and> A dvd unat c"
      proof
        assume "\<exists>n. unat c = unat start + n * unat align_v"
        then obtain n where "unat c = unat start + n * A" by (auto simp: A_def)
        then show "B \<le> unat c \<and> A dvd unat c" using st by simp
      next
        assume h: "B \<le> unat c \<and> A dvd unat c"
        then have "unat start \<le> unat c" using least_multiple[OF st(1) _ _ st(3) Apos] by blast
        with h st(1) show "\<exists>n. unat c = unat start + n * unat align_v"
          using multiple_steps[of A "unat start" "unat c"] by (simp add: A_def)
      qed
    qed
    have below: "\<And>c::u32. c < ?bound \<longleftrightarrow> unat c + 1 < B + S"
      using ub Spos by (auto simp: word_less_nat_alt)
    have unf: "alloc b s sz0 align_v = alloc_loop b s sz align_v start"
      using v False by (simp add: alloc_def sz_def[symmetric] start_def Let_def)
    have fwd: "\<And>(c::u32) n. unat c = unat start + n * A \<Longrightarrow> B \<le> unat c \<and> A dvd unat c"
      using st by simp
    have bwd: "\<And>c::u32. B \<le> unat c \<Longrightarrow> A dvd unat c \<Longrightarrow> \<exists>n. unat c = unat start + n * A"
      using cand unfolding A_def by blast
    from alloc_loop_first_fit[OF avpos nowrap, of s sz start]
    obtain r where r: "alloc_loop b s sz align_v start = Some r"
      and cases: "(\<exists>a b' s'. r = Inr (a, b', s') \<and> unat a + 1 < B + S
                    \<and> (\<exists>n. unat a = unat start + n * A)
                    \<and> try_alloc b s a sz = Inr (True, b', s')
                    \<and> (\<forall>c n. unat c = unat start + n * A \<and> c < a
                           \<longrightarrow> try_alloc b s c sz = Inr (False, b, s)))
              \<or> (r = Inr (0, b, s)
                    \<and> (\<forall>c n b' s'. unat c = unat start + n * A \<and> unat c + 1 < B + S
                           \<longrightarrow> try_alloc b s c sz \<noteq> Inr (True, b', s')))
              \<or> (\<exists>e c. r = Inl e \<and> unat c + 1 < B + S
                    \<and> (\<exists>n. unat c = unat start + n * A)
                    \<and> try_alloc b s c sz = Inl e
                    \<and> (\<forall>c' n. unat c' = unat start + n * A \<and> c' < c
                           \<longrightarrow> try_alloc b s c' sz = Inr (False, b, s)))"
      unfolding below A_def[symmetric] by blast
    from cases have
      "(\<exists>a b' s'. r = Inr (a, b', s') \<and> B \<le> unat a \<and> A dvd unat a \<and> unat a + 1 < B + S
          \<and> try_alloc b s a sz = Inr (True, b', s')
          \<and> (\<forall>c. B \<le> unat c \<and> A dvd unat c \<and> c < a \<longrightarrow> try_alloc b s c sz = Inr (False, b, s)))
       \<or> (r = Inr (0, b, s)
          \<and> (sz = 0 \<or> b_size b < sz
              \<or> (\<forall>c b' s'. B \<le> unat c \<and> A dvd unat c \<and> unat c + 1 < B + S
                     \<longrightarrow> try_alloc b s c sz \<noteq> Inr (True, b', s'))))
       \<or> (\<exists>e c. r = Inl e \<and> B \<le> unat c \<and> A dvd unat c \<and> unat c + 1 < B + S
          \<and> try_alloc b s c sz = Inl e
          \<and> (\<forall>c'. B \<le> unat c' \<and> A dvd unat c' \<and> c' < c \<longrightarrow> try_alloc b s c' sz = Inr (False, b, s)))"
    proof (elim disjE exE conjE)
      fix a b' s' n
      assume h: "r = Inr (a, b', s')" "unat a + 1 < B + S" "unat a = unat start + n * A"
        "try_alloc b s a sz = Inr (True, b', s')"
        "\<forall>c n. unat c = unat start + n * A \<and> c < a \<longrightarrow> try_alloc b s c sz = Inr (False, b, s)"
      have "\<forall>c. B \<le> unat c \<and> A dvd unat c \<and> c < a \<longrightarrow> try_alloc b s c sz = Inr (False, b, s)"
        using h(5) bwd by blast
      then show ?thesis using h(1,2,4) fwd[OF h(3)] by blast
    next
      assume h: "r = Inr (0, b, s)"
        "\<forall>c n b' s'. unat c = unat start + n * A \<and> unat c + 1 < B + S
                           \<longrightarrow> try_alloc b s c sz \<noteq> Inr (True, b', s')"
      have "\<forall>c b' s'. B \<le> unat c \<and> A dvd unat c \<and> unat c + 1 < B + S
                     \<longrightarrow> try_alloc b s c sz \<noteq> Inr (True, b', s')"
        using h(2) bwd by blast
      then show ?thesis using h(1) by blast
    next
      fix e c n
      assume h: "r = Inl e" "unat c + 1 < B + S" "unat c = unat start + n * A"
        "try_alloc b s c sz = Inl e"
        "\<forall>c' n. unat c' = unat start + n * A \<and> c' < c \<longrightarrow> try_alloc b s c' sz = Inr (False, b, s)"
      have "\<forall>c'. B \<le> unat c' \<and> A dvd unat c' \<and> c' < c \<longrightarrow> try_alloc b s c' sz = Inr (False, b, s)"
        using h(5) bwd by blast
      then show ?thesis using h(1,2,4) fwd[OF h(3)] by blast
    qed
    then show ?thesis
      unfolding unf sz_def[symmetric] B_def[symmetric] S_def[symmetric] A_def[symmetric]
      using r by blast
  qed
qed

text \<open>
  The scenario of the PS3 main block: \<^verbatim>\<open>alloc(0x1000, 0x1000)\<close> returns \<open>0x00010000\<close>, a second
  call returns \<open>0x00011000\<close>, and after \<^verbatim>\<open>dealloc(0x00010000)\<close> the same call returns
  \<open>0x00010000\<close> again.
\<close>

lemma ps3_main_block_scenario:
  "\<exists>b1 s1 b2 s2 b3 s3 b4 s4.
      alloc (new_block 0x00010000 0x1FFF0000) vm_start 0x1000 0x1000 = Some (Inr (0x00010000, b1, s1))
    \<and> alloc b1 s1 0x1000 0x1000 = Some (Inr (0x00011000, b2, s2))
    \<and> dealloc 2 b2 s2 0x00010000 = Some (Inr (True, b3, s3))
    \<and> alloc b3 s3 0x1000 0x1000 = Some (Inr (0x00010000, b4, s4))"
proof -
  define b0 where "b0 = new_block 0x00010000 0x1FFF0000"
  define rw where "rw = (page_readable OR page_writable)"
  have rwv: "rw OR page_allocated = 131" "rw < page_allocated" "protection rw = PROT_RW"
    by (simp_all add: rw_def flag_defs protection_def)
  obtain s1 where m1: "us_page_map vm_start 0x10000 0x1000 rw = Inr s1"
    and p1: "g_pages s1 = (g_pages vm_start)(16 := 131)" and h1: "host_ok s1 = host_ok vm_start"
    and ra1: "g_reservation_addr s1 = 0" and mx1: "g_reservation_mutex s1 = None"
    by (simp add: us_page_map_def page_range_def vm_start_fields rwv)
  define b1 where "b1 = b0\<lparr>b_used := 0x1000, m_map := (m_map b0)(0x10000 \<mapsto> 0x1000)\<rparr>"
  have bf0: "b_addr b0 = 0x10000" "b_size b0 = 0x1FFF0000" "b_used b0 = 0"
    by (simp_all add: b0_def new_block_def)
  have t1: "try_alloc b0 vm_start 0x10000 0x1000 = Inr (True, b1, s1)"
    by (simp add: try_alloc_def m1[unfolded rw_def] vm_start_fields bf0 b1_def)
  have a1: "alloc b0 vm_start 0x1000 0x1000 = Some (Inr (0x10000, b1, s1))"
    apply (simp add: alloc_def align_def cntlz32_4096 bf0)
    apply (subst alloc_loop.simps)
    apply (simp add: t1 bf0)
    done
  have bf1: "b_addr b1 = 0x10000" "b_size b1 = 0x1FFF0000" "b_used b1 = 0x1000"
    by (simp_all add: b1_def bf0)
  obtain s2 where m2: "us_page_map s1 0x11000 0x1000 rw = Inr s2"
    and p2: "g_pages s2 = (g_pages s1)(17 := 131)" and h2: "host_ok s2 = host_ok s1"
    and ra2: "g_reservation_addr s2 = 0" and mx2: "g_reservation_mutex s2 = None"
    by (simp add: us_page_map_def page_range_def p1 h1 ra1 mx1 vm_start_fields rwv)
  define b2 where "b2 = b1\<lparr>b_used := 0x2000, m_map := (m_map b1)(0x11000 \<mapsto> 0x1000)\<rparr>"
  have t2a: "try_alloc b1 s1 0x10000 0x1000 = Inr (False, b1, s1)"
    by (simp add: try_alloc_def p1)
  have t2b: "try_alloc b1 s1 0x11000 0x1000 = Inr (True, b2, s2)"
    by (simp add: try_alloc_def m2[unfolded rw_def] p1 vm_start_fields bf1 b2_def)
  have a2: "alloc b1 s1 0x1000 0x1000 = Some (Inr (0x11000, b2, s2))"
    apply (simp add: alloc_def align_def cntlz32_4096 bf1)
    apply (subst alloc_loop.simps)
    apply (simp add: t2a bf1)
    apply (subst alloc_loop.simps)
    apply (simp add: t2b bf1)
    done
  have bf2: "b_addr b2 = 0x10000" "b_size b2 = 0x1FFF0000" "b_used b2 = 0x2000"
      "m_map b2 0x10000 = Some 0x1000"
    by (simp_all add: b2_def b1_def bf0)
  obtain s3' where u3: "us_page_unmap (s2\<lparr>g_reservation_mutex := Some 2\<rparr>) 0x10000 0x1000 = Inr s3'"
    and p3': "g_pages s3' = (g_pages s2)(16 := 0)" and h3': "host_ok s3' = host_ok s2"
    and mx3': "g_reservation_mutex s3' = Some 2"
    by (simp add: us_page_unmap_def page_range_def p2 p1 h2 h1 ra2 vm_start_fields
          us_reservation_break_def flag_defs)
  define s3 where "s3 = s3'\<lparr>g_reservation_mutex := None\<rparr>"
  have p3: "g_pages s3 = (g_pages s2)(16 := 0)" and h3: "host_ok s3 = host_ok s2"
    by (simp_all add: s3_def p3' h3')
  define b3 where "b3 = b2\<lparr>m_map := (m_map b2)(0x10000 := None), b_used := 0x1000\<rparr>"
  have d3: "dealloc 2 b2 s2 0x10000 = Some (Inr (True, b3, s3))"
    by (simp add: dealloc_def locked_free[OF mx2] unlock_def mx3' bf2 u3 b3_def s3_def)
  have bf3: "b_addr b3 = 0x10000" "b_size b3 = 0x1FFF0000" "b_used b3 = 0x1000"
    by (simp_all add: b3_def bf2)
  obtain s4 where m4: "us_page_map s3 0x10000 0x1000 rw = Inr s4"
    by (simp add: us_page_map_def page_range_def p3 p2 p1 h3 h2 h1 vm_start_fields rwv)
  define b4 where "b4 = b3\<lparr>b_used := 0x2000, m_map := (m_map b3)(0x10000 \<mapsto> 0x1000)\<rparr>"
  have t4: "try_alloc b3 s3 0x10000 0x1000 = Inr (True, b4, s4)"
    by (simp add: try_alloc_def m4[unfolded rw_def] p3 p2 p1 vm_start_fields bf3 b4_def)
  have a4: "alloc b3 s3 0x1000 0x1000 = Some (Inr (0x10000, b4, s4))"
    apply (simp add: alloc_def align_def cntlz32_4096 bf3)
    apply (subst alloc_loop.simps)
    apply (simp add: t4 bf3)
    done
  show ?thesis using a1 a2 d3 a4 unfolding b0_def by blast
qed

text \<open>
  Claim C5 fails on the code. In the PS3 SPU block \<open>[0xE0000000, 2^32)\<close> the first
  \<^verbatim>\<open>alloc(0x1000, 0x1000)\<close> returns \<open>0xE0000000\<close>. A following \<^verbatim>\<open>alloc(0x1000, 0x20000000)\<close>
  finds the only candidate of the block taken, \<^verbatim>\<open>addr += align\<close> wraps to \<open>0\<close>, which is below
  the bound \<open>0xFFFFFFFF\<close> of the loop, and \<^verbatim>\<open>try_alloc\<close> succeeds there: the call returns \<open>0\<close>
  although \<open>used + size\<close> does not exceed the capacity, and has mapped page \<open>0\<close>, outside
  the block. The same call once more passes \<open>0xE0000000\<close> and \<open>0\<close> and returns \<open>0x20000000\<close>,
  the base of the user block.
\<close>

theorem alloc_scan_leaves_block:
  "\<exists>b1 s1 b2 s2 b3 s3.
      alloc (new_block 0xE0000000 0x20000000) vm_start 0x1000 0x1000 = Some (Inr (0xE0000000, b1, s1))
    \<and> alloc b1 s1 0x1000 0x20000000 = Some (Inr (0, b2, s2))
    \<and> b_used b1 + 0x1000 \<le> b_size b1
    \<and> g_pages s1 0 = 0
    \<and> g_pages s2 0 = (page_readable OR page_writable OR page_allocated)
    \<and> m_map b2 0 = Some 0x1000
    \<and> b_used b2 = 0x2000
    \<and> alloc b2 s2 0x1000 0x20000000 = Some (Inr (0x20000000, b3, s3))
    \<and> m_map b3 0x20000000 = Some 0x1000"
proof -
  define b0 where "b0 = new_block 0xE0000000 0x20000000"
  define s1 where "s1 = vm_start\<lparr>g_pages := (g_pages vm_start)(0xE0000 := 131),
                         g_priv_prot := set_prot (g_priv_prot vm_start) [0xE0000] PROT_RW,
                         g_prot := set_prot (g_prot vm_start) [0xE0000] PROT_RW,
                         g_mem := (\<lambda>a. if unat (0xE0000000::u32) \<le> unat a \<and> unat a < unat (0xE0000000::u32) + unat (0x1000::u32)
                                          then 0 else g_mem vm_start a)\<rparr>"
  define b1 where "b1 = b0\<lparr>b_used := 0x1000, m_map := (m_map b0)(0xE0000000 \<mapsto> 0x1000)\<rparr>"
  have r1: "page_range 0xE0000000 0x1000 = [0xE0000]" by (simp add: page_range_def)
  have m1: "us_page_map vm_start 0xE0000000 0x1000 (page_readable OR page_writable) = Inr s1"
    by (simp add: us_page_map_def r1 s1_def vm_start_fields flag_defs protection_def)
  have t1: "try_alloc b0 vm_start 0xE0000000 0x1000 = Inr (True, b1, s1)"
    by (simp add: try_alloc_def m1) (simp add: b0_def b1_def new_block_def vm_start_fields)
  have a1: "alloc b0 vm_start 0x1000 0x1000 = Some (Inr (0xE0000000, b1, s1))"
    apply (simp add: alloc_def align_def cntlz32_4096)
    apply (simp add: b0_def new_block_def)
    apply (subst alloc_loop.simps)
    apply (simp add: t1[unfolded b0_def new_block_def])
    done
  have p1: "g_pages s1 0xE0000 = 131" "g_pages s1 0 = 0" "host_ok s1 = (\<lambda>_. True)"
    by (simp_all add: s1_def vm_start_fields)
  define s2 where "s2 = s1\<lparr>g_pages := (g_pages s1)(0 := 131),
                         g_priv_prot := set_prot (g_priv_prot s1) [0] PROT_RW,
                         g_prot := set_prot (g_prot s1) [0] PROT_RW,
                         g_mem := (\<lambda>a. if unat (0::u32) \<le> unat a \<and> unat a < unat (0::u32) + unat (0x1000::u32)
                                          then 0 else g_mem s1 a)\<rparr>"
  define b2 where "b2 = b1\<lparr>b_used := 0x2000, m_map := (m_map b1)(0 \<mapsto> 0x1000)\<rparr>"
  have bf: "b_addr b1 = 0xE0000000" "b_size b1 = 0x20000000" "b_used b1 = 0x1000"
    by (simp_all add: b1_def b0_def new_block_def)
  have t2: "try_alloc b1 s1 0xE0000000 0x1000 = Inr (False, b1, s1)"
    by (simp add: try_alloc_def p1)
  have r0: "page_range 0 0x1000 = [0]" by (simp add: page_range_def)
  have m2: "us_page_map s1 0 0x1000 (page_readable OR page_writable) = Inr s2"
    by (simp add: us_page_map_def r0 s2_def p1 flag_defs protection_def)
  have t3: "try_alloc b1 s1 0 0x1000 = Inr (True, b2, s2)"
    by (simp add: try_alloc_def m2 p1 bf) (simp add: b2_def bf)
  have wrap: "(4294967296::u32) = 0" by simp
  have a2: "alloc b1 s1 0x1000 0x20000000 = Some (Inr (0, b2, s2))"
    apply (simp add: alloc_def align_def cntlz32_512M bf)
    apply (subst alloc_loop.simps)
    apply (simp add: t2 bf wrap)
    apply (subst alloc_loop.simps)
    apply (simp add: t3 bf)
    done
  have p2: "g_pages s2 0xE0000 = 131" "g_pages s2 0 = 131" "g_pages s2 0x20000 = 0"
      "host_ok s2 = (\<lambda>_. True)"
    by (simp_all add: s2_def p1 s1_def vm_start_fields)
  define s3 where "s3 = s2\<lparr>g_pages := (g_pages s2)(0x20000 := 131),
                         g_priv_prot := set_prot (g_priv_prot s2) [0x20000] PROT_RW,
                         g_prot := set_prot (g_prot s2) [0x20000] PROT_RW,
                         g_mem := (\<lambda>a. if unat (0x20000000::u32) \<le> unat a
                                            \<and> unat a < unat (0x20000000::u32) + unat (0x1000::u32)
                                          then 0 else g_mem s2 a)\<rparr>"
  define b3 where "b3 = b2\<lparr>b_used := 0x3000, m_map := (m_map b2)(0x20000000 \<mapsto> 0x1000)\<rparr>"
  have bf2: "b_addr b2 = 0xE0000000" "b_size b2 = 0x20000000" "b_used b2 = 0x2000"
    by (simp_all add: b2_def bf)
  have t4: "try_alloc b2 s2 0xE0000000 0x1000 = Inr (False, b2, s2)"
    by (simp add: try_alloc_def p2)
  have t5: "try_alloc b2 s2 0 0x1000 = Inr (False, b2, s2)"
    by (simp add: try_alloc_def p2)
  have r2: "page_range 0x20000000 0x1000 = [0x20000]" by (simp add: page_range_def)
  have m3: "us_page_map s2 0x20000000 0x1000 (page_readable OR page_writable) = Inr s3"
    by (simp add: us_page_map_def r2 s3_def p2 flag_defs protection_def)
  have t6: "try_alloc b2 s2 0x20000000 0x1000 = Inr (True, b3, s3)"
    by (simp add: try_alloc_def m3 p2 bf2) (simp add: b3_def bf2)
  have a3: "alloc b2 s2 0x1000 0x20000000 = Some (Inr (0x20000000, b3, s3))"
    apply (simp add: alloc_def align_def cntlz32_512M bf2)
    apply (subst alloc_loop.simps)
    apply (simp add: t4 bf2 wrap)
    apply (subst alloc_loop.simps)
    apply (simp add: t5 bf2)
    apply (subst alloc_loop.simps)
    apply (simp add: t6 bf2)
    done
  have "m_map b3 0x20000000 = Some 0x1000" by (simp add: b3_def)
  moreover have "g_pages s2 0 = (page_readable OR page_writable OR page_allocated)"
    by (simp add: s2_def flag_defs)
  moreover have "m_map b2 0 = Some 0x1000" "b_used b2 = 0x2000" by (simp_all add: b2_def)
  moreover have "b_used b1 + 0x1000 \<le> b_size b1" by (simp add: bf)
  ultimately show ?thesis using a1 a2 a3 p1(2) unfolding b0_def by blast
qed

text \<open>
  The containment check of \<^verbatim>\<open>falloc\<close> in numbers, for a block and a request that do not
  pass the end of the address space: \<^verbatim>\<open>try_alloc\<close> is reached exactly when the range starts
  at or above the base and ends strictly below the end of the block.
\<close>

lemma falloc_tries_iff:
  assumes "align sz0 4096 \<noteq> 0" and "b_size b \<noteq> 0"
    and "unat (b_addr b) + unat (b_size b) \<le> 2 ^ 32"
    and "unat addr + unat (align sz0 4096) \<le> 2 ^ 32"
  shows "falloc b s addr sz0 =
           (if unat (b_addr b) \<le> unat addr
               \<and> unat addr + unat (align sz0 4096) < unat (b_addr b) + unat (b_size b)
            then (case try_alloc b s addr (align sz0 4096) of
                    Inl e \<Rightarrow> Inl e
                  | Inr (ok, b1, s1) \<Rightarrow> if \<not> ok then Inr (0, b1, s1) else Inr (addr, b1, s1))
            else Inr (0, b, s))"
proof -
  define sz where "sz = align sz0 4096"
  have z: "sz \<noteq> 0" using assms(1) by (simp add: sz_def)
  have e1: "unat (addr + sz - 1) = unat addr + unat sz - 1"
    using unat_last_byte[OF z, of addr] assms(4) by (simp add: sz_def)
  have e2: "unat (b_addr b + b_size b - 1) = unat (b_addr b) + unat (b_size b) - 1"
    using unat_last_byte[OF assms(2), of "b_addr b"] assms(3) by simp
  have pz: "0 < unat sz" using z by (simp add: unat_gt_0)
  have ps: "0 < unat (b_size b)" using assms(2) by (simp add: unat_gt_0)
  have "(sz = 0 \<or> sz > b_size b \<or> addr < b_addr b \<or> addr + sz - 1 \<ge> b_addr b + b_size b - 1)
        \<longleftrightarrow> \<not> (unat (b_addr b) \<le> unat addr \<and> unat addr + unat sz < unat (b_addr b) + unat (b_size b))"
    using z pz ps by (auto simp: word_less_nat_alt word_le_nat_alt e1 e2)
  then show ?thesis
    unfolding falloc_def sz_def[symmetric] Let_def by (simp split: if_splits)
qed

text \<open>
  Claim C8 fails on the code. In the PS3 main block \<open>[0x00010000, 0x20000000)\<close>, with no
  page mapped, \<^verbatim>\<open>falloc(0x1FFFF000, 0x1000)\<close> is rejected although the range ends exactly at
  the end of the block; the page before it is accepted.
\<close>

theorem falloc_rejects_last_page:
  "falloc (new_block 0x00010000 0x1FFF0000) vm_start 0x1FFFF000 0x1000
     = Inr (0, new_block 0x00010000 0x1FFF0000, vm_start)
   \<and> fst (projr (falloc (new_block 0x00010000 0x1FFF0000) vm_start 0x1FFFE000 0x1000)) = 0x1FFFE000"
proof -
  have 1: "falloc (new_block 0x00010000 0x1FFF0000) vm_start 0x1FFFF000 0x1000
     = Inr (0, new_block 0x00010000 0x1FFF0000, vm_start)"
    by (simp add: falloc_def align_def new_block_def)
  have r: "page_range 0x1FFFE000 0x1000 = [0x1FFFE]" by (simp add: page_range_def)
  have 2: "fst (projr (falloc (new_block 0x00010000 0x1FFF0000) vm_start 0x1FFFE000 0x1000)) = 0x1FFFE000"
    by (simp add: falloc_def align_def new_block_def try_alloc_def us_page_map_def r vm_start_def flag_defs)
  show ?thesis using 1 2 by simp
qed

subsection \<open>The location registry\<close>

text \<open>
  Claim C9 fails on the code, for a call by any thread in any state in which the
  reservation mutex is free. In the PSV layout the search of \<^verbatim>\<open>get(any, addr)\<close> for an
  address outside the two blocks reaches the null slot and reads \<^verbatim>\<open>block->addr\<close> through it;
  the same happens in the PSP layout for an address of the kernel block, which stands
  behind the null slot.
\<close>

theorem get_any_null_slot:
  "get t (s\<lparr>g_reservation_mutex := None\<rparr>) psv_init any 0x00010000 = Some (Inl Null_dereference)
   \<and> get t (s\<lparr>g_reservation_mutex := None\<rparr>) psp_init any 0x88000000 = Some (Inl Null_dereference)"
  by (simp add: get_def locked_free psv_init_def psp_init_def new_block_def)

end
